theory Spec2Isabelle
  imports Main "HOL-Library.Word"
begin

section \<open>Build side of the partitioned hash join: data model\<close>

text \<open>
  The theory embeds the three functions of
  \<^verbatim>\<open>be/src/exec/partitioned-hash-join-builder-ir.cc\<close>:
  \<^verbatim>\<open>PhjBuilder::AppendRow\<close>, \<^verbatim>\<open>PhjBuilder::ProcessBuildBatch\<close> and
  \<^verbatim>\<open>PhjBuilder::Partition::InsertBatch\<close>. The collaborators they call (tuple
  stream, evaluator cache, hash table, bloom filter, the slow append path) live in
  other files; each is either modelled from the design document, and marked so, or
  taken as a parameter.
\<close>

type_synonym uint32_t = "32 word"
type_synonym RowIdx = "64 word"

text \<open>\<^verbatim>\<open>Status\<close>: \<^verbatim>\<open>Status::OK()\<close> or an error carrying its message.\<close>

datatype Status = OK | Error string

text \<open>
  A C++ call either returns or has no defined result: an index outside a vector, a
  null pointer dereferenced, a shift by the full width, a signed overflow, a failed
  \<^verbatim>\<open>DCHECK\<close>. The second case is the value \<open>Undefined\<close>.
\<close>

datatype 'a outcome = Returns 'a | Undefined

subsection \<open>ExprValuesCache\<close>

text \<open>
  Modelled from the spec: \<^verbatim>\<open>HashTableCtx::ExprValuesCache\<close> is declared in
  \<^verbatim>\<open>exec/hash-table.h\<close>. It is a bounded cache of capacity C with one slot per row
  holding the row's hash and its null flag (the evaluated key values are not read by
  the code embedded here). There is one active cursor \<open>cur\<close>: the write cursor
  during a write phase, the read cursor after \<^verbatim>\<open>ResetForRead\<close>, which freezes the
  write cursor in \<open>hash_end\<close>. \<^verbatim>\<open>Reset\<close> rewinds both to 0 and clears every null
  flag, so that after a write phase a slot is flagged iff \<^verbatim>\<open>SetRowNull\<close> was called
  on it in that phase. The capacity is the number of slots.
\<close>

record ExprValuesCache =
  slots :: "(uint32_t \<times> bool) list"
  cur :: nat
  hash_end :: nat

text \<open>
  Modelled from the spec: the operations of the cache. After \<^verbatim>\<open>Reset\<close> both cursors
  are 0; \<^verbatim>\<open>NextRow\<close> advances the active cursor; \<^verbatim>\<open>ResetForRead\<close> sets the read
  cursor to 0 and freezes the write cursor; the other operations read or write the
  current slot.
\<close>

definition capacity :: "ExprValuesCache \<Rightarrow> nat" where
  "capacity c = length (slots c)"

definition Reset :: "ExprValuesCache \<Rightarrow> ExprValuesCache" where
  "Reset c = c\<lparr>slots := map (\<lambda>s. (fst s, False)) (slots c), cur := 0, hash_end := 0\<rparr>"

definition ResetForRead :: "ExprValuesCache \<Rightarrow> ExprValuesCache" where
  "ResetForRead c = c\<lparr>hash_end := cur c, cur := 0\<rparr>"

definition NextRow :: "ExprValuesCache \<Rightarrow> ExprValuesCache" where
  "NextRow c = c\<lparr>cur := Suc (cur c)\<rparr>"

definition IsRowNull :: "ExprValuesCache \<Rightarrow> bool" where
  "IsRowNull c = snd (slots c ! cur c)"

definition SetRowNull :: "ExprValuesCache \<Rightarrow> ExprValuesCache" where
  "SetRowNull c = c\<lparr>slots := (slots c)[cur c := (fst (slots c ! cur c), True)]\<rparr>"

definition CurExprValuesHash :: "ExprValuesCache \<Rightarrow> uint32_t" where
  "CurExprValuesHash c = fst (slots c ! cur c)"

definition SetCurExprValuesHash :: "uint32_t \<Rightarrow> ExprValuesCache \<Rightarrow> ExprValuesCache" where
  "SetCurExprValuesHash h c = c\<lparr>slots := (slots c)[cur c := (h, snd (slots c ! cur c))]\<rparr>"

subsection \<open>HashTableCtx\<close>

text \<open>
  Modelled from the spec: \<^verbatim>\<open>HashTableCtx\<close> (\<^verbatim>\<open>exec/hash-table.h\<close>) holds the
  key-expression evaluator, whose result on a row is a 32-bit hash or NullKey
  (\<open>None\<close>), the recursion level and the evaluator cache.
\<close>

record 'row HashTableCtx =
  key_hash :: "'row \<Rightarrow> uint32_t option"
  level :: nat
  expr_values_cache :: ExprValuesCache

text \<open>
  Modelled from the spec: \<^verbatim>\<open>HashTableCtx::EvalAndHashBuild\<close> evaluates and hashes
  the join keys of a row into the cache's current slot. It returns false on a NULL
  key, leaving the slot's hash as it was, and otherwise stores the hash in the slot.
  The slot must exist: a cursor at or past the capacity addresses memory outside the
  cache's arrays. The reads of the current slot that the embedded code makes
  (\<open>CurExprValuesHash\<close>, \<open>IsRowNull\<close>, \<open>SetRowNull\<close>) all follow such a call at
  the same cursor position.
\<close>

definition EvalAndHashBuild ::
  "'row HashTableCtx \<Rightarrow> 'row \<Rightarrow> (bool \<times> 'row HashTableCtx) outcome" where
  "EvalAndHashBuild ctx row =
     (if capacity (expr_values_cache ctx) \<le> cur (expr_values_cache ctx) then Undefined
      else case key_hash ctx row of
             None \<Rightarrow> Returns (False, ctx)
           | Some h \<Rightarrow> Returns (True,
               ctx\<lparr>expr_values_cache := SetCurExprValuesHash h (expr_values_cache ctx)\<rparr>))"

subsection \<open>BufferedTupleStream\<close>

text \<open>
  Modelled from the spec: \<^verbatim>\<open>BufferedTupleStream\<close>
  (\<^verbatim>\<open>runtime/buffered-tuple-stream.h\<close>) is an append-only ordered sequence of rows
  over paged storage. \<open>page_room\<close> is the number of rows the current write page still
  takes, \<open>stream_status\<close> the hard error the stream is in, if any.
  \<^verbatim>\<open>AddRow(row, &status)\<close> is the non-growing append: true when the row was
  appended; false with status Ok when the page is full; false with the error when the
  stream has failed. On false the stream is as before.
\<close>

record 'row BufferedTupleStream =
  stream_rows :: "'row list"
  page_room :: nat
  stream_status :: Status

text \<open>
  Modelled from the spec: \<^verbatim>\<open>BufferedTupleStream::AddRow\<close>, the non-growing append,
  with its three results.
\<close>

definition AddRow ::
  "'row BufferedTupleStream \<Rightarrow> 'row \<Rightarrow> bool \<times> Status \<times> 'row BufferedTupleStream" where
  "AddRow s row =
     (if stream_status s \<noteq> OK then (False, stream_status s, s)
      else if page_room s = 0 then (False, OK, s)
      else (True, OK, s\<lparr>stream_rows := stream_rows s @ [row], page_room := page_room s - 1\<rparr>))"

subsection \<open>HashTable\<close>

text \<open>
  Modelled from the spec: \<^verbatim>\<open>HashTable\<close> (\<^verbatim>\<open>exec/hash-table.h\<close>) is an index of
  (hash, RowIdx) entries. \<^verbatim>\<open>Insert(ctx, row_idx, row)\<close> takes the hash from the
  current slot of the context's cache and fails only when the capacity is exhausted,
  never because a key exists; on failure the table is as before.
  \<^verbatim>\<open>PrefetchBucket\<close> is a hint with no observable effect: the table after
  the call is the table before it.
\<close>

record HashTable =
  entries :: "(uint32_t \<times> RowIdx) list"
  max_entries :: nat

text \<open>
  Modelled from the spec: \<^verbatim>\<open>HashTable::Insert\<close>.
\<close>

definition Insert :: "HashTable \<Rightarrow> 'row HashTableCtx \<Rightarrow> RowIdx \<Rightarrow> 'row \<Rightarrow> bool \<times> HashTable" where
  "Insert ht ht_ctx row_idx row =
     (if length (entries ht) < max_entries ht
      then (True, ht\<lparr>entries := entries ht @ [(CurExprValuesHash (expr_values_cache ht_ctx), row_idx)]\<rparr>)
      else (False, ht))"

subsection \<open>Partition, FilterContext, PhjBuilder\<close>

record 'row Partition =
  build_rows :: "'row BufferedTupleStream"
  hash_tbl :: "HashTable option"

text \<open>
  Modelled from the spec: a bloom filter (\<^verbatim>\<open>util/bloom-filter.h\<close>) is an insert-only
  set keyed by 32-bit hashes; \<^verbatim>\<open>Insert\<close> is idempotent, commutative and never
  removes. A \<^verbatim>\<open>FilterContext\<close> (\<^verbatim>\<open>runtime/runtime-filter.h\<close>) pairs a predicate
  expression, whose value on a row may be NULL (\<open>None\<close>), and the type of that
  expression with an optional local bloom filter.
\<close>

type_synonym BloomFilter = "uint32_t set"

text \<open>
  Modelled from the spec: \<^verbatim>\<open>BloomFilter::Insert\<close> adds the hash to the set.
\<close>

definition BloomFilter_Insert :: "BloomFilter \<Rightarrow> uint32_t \<Rightarrow> BloomFilter" where
  "BloomFilter_Insert f h = insert h f"

record ('row, 'v, 'ty) FilterContext =
  expr :: "'row \<Rightarrow> 'v option"
  expr_type :: 'ty
  local_bloom_filter :: "BloomFilter option"

record ('row, 'v, 'ty) PhjBuilder =
  hash_partitions :: "'row Partition list"
  null_aware_partition :: "'row Partition option"
  filters :: "('row, 'v, 'ty) FilterContext list"

text \<open>
  The code passes streams by pointer. A pointer to a stream of the builder is one of
  the two places a stream lives in: the null-aware partition, or the hash partition
  at an index.
\<close>

datatype stream_ref = NullAware | HashPartition nat

fun get_stream :: "('row, 'v, 'ty) PhjBuilder \<Rightarrow> stream_ref \<Rightarrow> 'row BufferedTupleStream option" where
  "get_stream b NullAware = map_option build_rows (null_aware_partition b)"
| "get_stream b (HashPartition i) =
     (if i < length (hash_partitions b) then Some (build_rows (hash_partitions b ! i)) else None)"

fun put_stream ::
  "('row, 'v, 'ty) PhjBuilder \<Rightarrow> stream_ref \<Rightarrow> 'row BufferedTupleStream \<Rightarrow> ('row, 'v, 'ty) PhjBuilder" where
  "put_stream b NullAware s =
     b\<lparr>null_aware_partition := map_option (\<lambda>p. p\<lparr>build_rows := s\<rparr>) (null_aware_partition b)\<rparr>"
| "put_stream b (HashPartition i) s =
     b\<lparr>hash_partitions := (hash_partitions b)[i := (hash_partitions b ! i)\<lparr>build_rows := s\<rparr>]\<rparr>"

text \<open>
  What this file takes from the rest of the program without its code: the constant
  \<^verbatim>\<open>NUM_PARTITIONING_BITS\<close>, \<^verbatim>\<open>RuntimeFilterBank::DefaultHashSeed()\<close>,
  \<^verbatim>\<open>RawValue::GetHashValue\<close> and the slow append path
  \<^verbatim>\<open>PhjBuilder::AppendRowStreamFull\<close>, a member function of the builder that may
  touch any of its partitions.
\<close>

record ('row, 'v, 'ty) Externals =
  NUM_PARTITIONING_BITS :: nat
  DefaultHashSeed :: uint32_t
  GetHashValue :: "'v option \<Rightarrow> 'ty \<Rightarrow> uint32_t \<Rightarrow> uint32_t"
  AppendRowStreamFull ::
    "('row, 'v, 'ty) PhjBuilder \<Rightarrow> stream_ref \<Rightarrow> 'row \<Rightarrow> Status \<times> ('row, 'v, 'ty) PhjBuilder"

section \<open>AppendRow\<close>

text \<open>
  \<^verbatim>\<open>
  inline Status PhjBuilder::AppendRow(BufferedTupleStream* stream, TupleRow* row) {
    Status status;
    if (LIKELY(stream->AddRow(row, &status))) return Status::OK();
    RETURN_IF_ERROR(status);
    return AppendRowStreamFull(stream, row);
  }
  \<close>
\<close>

definition AppendRow ::
  "('row, 'v, 'ty) Externals \<Rightarrow> ('row, 'v, 'ty) PhjBuilder \<Rightarrow> stream_ref \<Rightarrow> 'row
     \<Rightarrow> (Status \<times> ('row, 'v, 'ty) PhjBuilder) outcome" where
  "AppendRow ext b stream row =
     (case get_stream b stream of
        None \<Rightarrow> Undefined
      | Some s \<Rightarrow>
          (case AddRow s row of
             (added, status, s') \<Rightarrow>
               if added then Returns (OK, put_stream b stream s')
               else if status \<noteq> OK then Returns (status, put_stream b stream s')
               else Returns (AppendRowStreamFull ext (put_stream b stream s') stream row)))"

section \<open>ProcessBuildBatch\<close>

text \<open>
  The loop over \<^verbatim>\<open>filters_\<close>: a context without a bloom filter is skipped; otherwise
  the predicate is evaluated on the row, its value (NULL or not) is hashed with the
  default seed and the hash is inserted.
\<close>

definition insert_filter ::
  "('row, 'v, 'ty) Externals \<Rightarrow> 'row \<Rightarrow> ('row, 'v, 'ty) FilterContext \<Rightarrow> ('row, 'v, 'ty) FilterContext" where
  "insert_filter ext build_row fctx =
     (case local_bloom_filter fctx of
        None \<Rightarrow> fctx
      | Some bf \<Rightarrow>
          fctx\<lparr>local_bloom_filter :=
            Some (BloomFilter_Insert bf
              (GetHashValue ext (expr fctx build_row) (expr_type fctx) (DefaultHashSeed ext)))\<rparr>)"

text \<open>
  One iteration of \<^verbatim>\<open>FOREACH_ROW\<close>. The result's status is that of the
  \<^verbatim>\<open>RETURN_IF_ERROR\<close> of the iteration, \<open>OK\<close> when the loop goes on.
  \<^verbatim>\<open>DCHECK_EQ(ctx->level(), 0)\<close> has no defined result when it fails.
\<close>

definition ProcessBuildRow ::
  "('row, 'v, 'ty) Externals \<Rightarrow> bool \<Rightarrow> 'row
     \<Rightarrow> ('row, 'v, 'ty) PhjBuilder \<times> 'row HashTableCtx
     \<Rightarrow> (Status \<times> ('row, 'v, 'ty) PhjBuilder \<times> 'row HashTableCtx) outcome" where
  "ProcessBuildRow ext build_filters build_row st =
     (case st of (b, ctx) \<Rightarrow>
      (case EvalAndHashBuild ctx build_row of
        Undefined \<Rightarrow> Undefined
      | Returns (False, ctx1) \<Rightarrow>
          (case null_aware_partition b of
             None \<Rightarrow> Returns (OK, b, ctx1)
           | Some _ \<Rightarrow>
               (case AppendRow ext b NullAware build_row of
                  Undefined \<Rightarrow> Undefined
                | Returns (status, b') \<Rightarrow> Returns (status, b', ctx1)))
      | Returns (True, ctx1) \<Rightarrow>
          if build_filters \<and> level ctx1 \<noteq> 0 then Undefined
          else
            (case (if build_filters then b\<lparr>filters := map (insert_filter ext build_row) (filters b)\<rparr> else b) of
               b1 \<Rightarrow>
                 if NUM_PARTITIONING_BITS ext = 0 \<or> 32 < NUM_PARTITIONING_BITS ext then Undefined
                 else
                   (case unat (drop_bit (32 - NUM_PARTITIONING_BITS ext)
                                (CurExprValuesHash (expr_values_cache ctx1))) of
                      partition_idx \<Rightarrow>
                        if length (hash_partitions b1) \<le> partition_idx then Undefined
                        else
                          (case AppendRow ext b1 (HashPartition partition_idx) build_row of
                             Undefined \<Rightarrow> Undefined
                           | Returns (status, b') \<Rightarrow> Returns (status, b', ctx1))))))"

fun ProcessBuildRows ::
  "('row, 'v, 'ty) Externals \<Rightarrow> bool \<Rightarrow> 'row list
     \<Rightarrow> ('row, 'v, 'ty) PhjBuilder \<times> 'row HashTableCtx
     \<Rightarrow> (Status \<times> ('row, 'v, 'ty) PhjBuilder \<times> 'row HashTableCtx) outcome" where
  "ProcessBuildRows ext build_filters [] st = Returns (OK, st)"
| "ProcessBuildRows ext build_filters (build_row # rest) st =
     (case ProcessBuildRow ext build_filters build_row st of
        Undefined \<Rightarrow> Undefined
      | Returns (status, st') \<Rightarrow>
          if status = OK then ProcessBuildRows ext build_filters rest st'
          else Returns (status, st'))"

definition ProcessBuildBatch ::
  "('row, 'v, 'ty) Externals \<Rightarrow> ('row, 'v, 'ty) PhjBuilder \<Rightarrow> 'row list \<Rightarrow> 'row HashTableCtx \<Rightarrow> bool
     \<Rightarrow> (Status \<times> ('row, 'v, 'ty) PhjBuilder \<times> 'row HashTableCtx) outcome" where
  "ProcessBuildBatch ext b build_batch ctx build_filters =
     ProcessBuildRows ext build_filters build_batch
       (b, ctx\<lparr>expr_values_cache := Reset (expr_values_cache ctx)\<rparr>)"

section \<open>Partition::InsertBatch\<close>

text \<open>
  Modelled from the spec: \<^verbatim>\<open>TPrefetchMode\<close> is generated from a Thrift file;
  the modes are None, GroupPrefetch and PipelinedPrefetch. The code only asks whether
  the mode is \<^verbatim>\<open>NONE\<close>.
\<close>

datatype TPrefetchMode = NONE | GroupPrefetch | PipelinedPrefetch

text \<open>
  The first \<^verbatim>\<open>FOREACH_ROW_LIMIT\<close> of a group: hash every row into the cache and
  flag the slots of the rows with a NULL key. \<^verbatim>\<open>hash_tbl_->PrefetchBucket\<close>
  changes nothing; what is left of the call is that it dereferences
  \<^verbatim>\<open>hash_tbl_\<close>.
\<close>

fun write_phase ::
  "TPrefetchMode \<Rightarrow> 'row Partition \<Rightarrow> 'row list \<Rightarrow> 'row HashTableCtx \<Rightarrow> 'row HashTableCtx outcome" where
  "write_phase prefetch_mode p [] ht_ctx = Returns ht_ctx"
| "write_phase prefetch_mode p (row # rest) ht_ctx =
     (case EvalAndHashBuild ht_ctx row of
        Undefined \<Rightarrow> Undefined
      | Returns (True, ctx1) \<Rightarrow>
          if prefetch_mode \<noteq> NONE \<and> hash_tbl p = None then Undefined
          else write_phase prefetch_mode p rest
                 (ctx1\<lparr>expr_values_cache := NextRow (expr_values_cache ctx1)\<rparr>)
      | Returns (False, ctx1) \<Rightarrow>
          write_phase prefetch_mode p rest
            (ctx1\<lparr>expr_values_cache := NextRow (SetRowNull (expr_values_cache ctx1))\<rparr>))"

text \<open>
  The second \<^verbatim>\<open>FOREACH_ROW_LIMIT\<close> of a group: insert the rows whose slot is not
  null. \<^verbatim>\<open>row_indices[cur_row]\<close> is read for every row, null or not. The result
  is false at the first failed \<^verbatim>\<open>Insert\<close>, with the state as it is then.
\<close>

fun read_phase ::
  "RowIdx list \<Rightarrow> 'row list \<Rightarrow> nat \<Rightarrow> 'row HashTableCtx \<times> 'row Partition
     \<Rightarrow> (bool \<times> 'row HashTableCtx \<times> 'row Partition) outcome" where
  "read_phase indices [] cur_row st = Returns (True, st)"
| "read_phase indices (row # rest) cur_row st =
     (case st of (ht_ctx, p) \<Rightarrow>
      if length indices \<le> cur_row then Undefined
      else
        (case indices ! cur_row of
           row_idx \<Rightarrow>
             if IsRowNull (expr_values_cache ht_ctx)
             then read_phase indices rest (Suc cur_row)
                    (ht_ctx\<lparr>expr_values_cache := NextRow (expr_values_cache ht_ctx)\<rparr>, p)
             else
               (case hash_tbl p of
                  None \<Rightarrow> Undefined
                | Some ht \<Rightarrow>
                    (case Insert ht ht_ctx row_idx row of
                       (False, ht') \<Rightarrow> Returns (False, ht_ctx, p\<lparr>hash_tbl := Some ht'\<rparr>)
                     | (True, ht') \<Rightarrow>
                         read_phase indices rest (Suc cur_row)
                           (ht_ctx\<lparr>expr_values_cache := NextRow (expr_values_cache ht_ctx)\<rparr>,
                            p\<lparr>hash_tbl := Some ht'\<rparr>)))))"

text \<open>
  Modelled from the spec: \<^verbatim>\<open>FOREACH_ROW_LIMIT(batch, start, limit, iter)\<close>
  (\<^verbatim>\<open>runtime/row-batch.h\<close>) visits the rows at positions
  \<open>start \<le> r < min (start + limit) N\<close> of the batch.
\<close>

definition rows_limit :: "'row list \<Rightarrow> nat \<Rightarrow> nat \<Rightarrow> 'row list" where
  "rows_limit batch start limit = take limit (drop start batch)"

text \<open>
  One prefetch group, starting at \<open>prefetch_group_row\<close>: reset, write phase,
  reset for read, read phase.
\<close>

definition insert_group ::
  "TPrefetchMode \<Rightarrow> 'row list \<Rightarrow> RowIdx list \<Rightarrow> nat \<Rightarrow> nat
     \<Rightarrow> 'row HashTableCtx \<times> 'row Partition
     \<Rightarrow> (bool \<times> 'row HashTableCtx \<times> 'row Partition) outcome" where
  "insert_group prefetch_mode batch indices prefetch_size prefetch_group_row st =
     (case st of (ht_ctx, p) \<Rightarrow>
       (case write_phase prefetch_mode p (rows_limit batch prefetch_group_row prefetch_size)
               (ht_ctx\<lparr>expr_values_cache := Reset (expr_values_cache ht_ctx)\<rparr>) of
          Undefined \<Rightarrow> Undefined
        | Returns ctx1 \<Rightarrow>
            read_phase indices (rows_limit batch prefetch_group_row prefetch_size) prefetch_group_row
              (ctx1\<lparr>expr_values_cache := ResetForRead (expr_values_cache ctx1)\<rparr>, p)))"

text \<open>
  The outer loop. With a cache of capacity 0 it makes no progress and never returns:
  the result \<open>None\<close>. \<^verbatim>\<open>prefetch_group_row += prefetch_size\<close> is an addition
  of two \<^verbatim>\<open>int\<close>, undefined when it overflows.
\<close>

partial_function (option) insert_groups ::
  "TPrefetchMode \<Rightarrow> 'row list \<Rightarrow> RowIdx list \<Rightarrow> nat \<Rightarrow> nat
     \<Rightarrow> 'row HashTableCtx \<times> 'row Partition
     \<Rightarrow> (bool \<times> 'row HashTableCtx \<times> 'row Partition) outcome option" where
  "insert_groups prefetch_mode batch indices prefetch_size prefetch_group_row st =
     (if prefetch_group_row < length batch then
        (case insert_group prefetch_mode batch indices prefetch_size prefetch_group_row st of
           Undefined \<Rightarrow> Some Undefined
         | Returns r \<Rightarrow>
             if \<not> fst r then Some (Returns r)
             else if 2 ^ 31 \<le> prefetch_group_row + prefetch_size then Some Undefined
             else insert_groups prefetch_mode batch indices prefetch_size
                    (prefetch_group_row + prefetch_size) (snd r))
      else Some (Returns (True, st)))"

declare insert_groups.simps [code]

definition InsertBatch ::
  "'row Partition \<Rightarrow> TPrefetchMode \<Rightarrow> 'row HashTableCtx \<Rightarrow> 'row list \<Rightarrow> RowIdx list
     \<Rightarrow> (bool \<times> 'row HashTableCtx \<times> 'row Partition) outcome option" where
  "InsertBatch p prefetch_mode ht_ctx batch indices =
     insert_groups prefetch_mode batch indices (capacity (expr_values_cache ht_ctx)) 0 (ht_ctx, p)"

section \<open>Vocabulary of the properties\<close>

text \<open>The rows held by the stream a reference points to; none when it points nowhere.\<close>

definition rows_of :: "('row, 'v, 'ty) PhjBuilder \<Rightarrow> stream_ref \<Rightarrow> 'row list" where
  "rows_of b stream = (case get_stream b stream of None \<Rightarrow> [] | Some s \<Rightarrow> stream_rows s)"

text \<open>
  The partition index of a hash: its top \<open>B\<close> bits.
\<close>

definition partition_of :: "nat \<Rightarrow> uint32_t \<Rightarrow> nat" where
  "partition_of B hash = unat (drop_bit (32 - B) hash)"

text \<open>
  The destination of a row, as the design states it: a NULL key goes to the null-aware
  partition when there is one and nowhere otherwise; any other key goes to the hash
  partition of its hash.
\<close>

definition destination ::
  "nat \<Rightarrow> ('row \<Rightarrow> uint32_t option) \<Rightarrow> bool \<Rightarrow> 'row \<Rightarrow> stream_ref option" where
  "destination B key null_aware row =
     (case key row of
        None \<Rightarrow> if null_aware then Some NullAware else None
      | Some h \<Rightarrow> Some (HashPartition (partition_of B h)))"

text \<open>
  The number of rows held by all hash partitions and the null-aware partition.
\<close>

definition total_rows :: "('row, 'v, 'ty) PhjBuilder \<Rightarrow> nat" where
  "total_rows b =
     sum_list (map (\<lambda>p. length (stream_rows (build_rows p))) (hash_partitions b))
     + (case null_aware_partition b of None \<Rightarrow> 0 | Some p \<Rightarrow> length (stream_rows (build_rows p)))"

text \<open>
  What a call may change in the builder when it only touches streams: the partitions
  stay where they are, with their hash tables (\<open>same_tables\<close>), and the filters are
  the same.
\<close>

definition same_tables :: "('row, 'v, 'ty) PhjBuilder \<Rightarrow> ('row, 'v, 'ty) PhjBuilder \<Rightarrow> bool" where
  "same_tables b b' \<longleftrightarrow>
     map hash_tbl (hash_partitions b') = map hash_tbl (hash_partitions b)
     \<and> map_option hash_tbl (null_aware_partition b') = map_option hash_tbl (null_aware_partition b)"

definition streams_only :: "('row, 'v, 'ty) PhjBuilder \<Rightarrow> ('row, 'v, 'ty) PhjBuilder \<Rightarrow> bool" where
  "streams_only b b' \<longleftrightarrow> same_tables b b' \<and> filters b' = filters b"

text \<open>
  A filter context with its bloom filter's contents forgotten: what stays of it when
  only bloom filters are written.
\<close>

definition without_bloom :: "('row, 'v, 'ty) FilterContext \<Rightarrow> ('row, 'v, 'ty) FilterContext" where
  "without_bloom fctx = fctx\<lparr>local_bloom_filter := map_option (\<lambda>_. {}) (local_bloom_filter fctx)\<rparr>"

text \<open>
  The hash a row contributes to the bloom filter of a filter context.
\<close>

definition filter_hash :: "('row, 'v, 'ty) Externals \<Rightarrow> ('row, 'v, 'ty) FilterContext \<Rightarrow> 'row \<Rightarrow> uint32_t" where
  "filter_hash ext fctx row = GetHashValue ext (expr fctx row) (expr_type fctx) (DefaultHashSeed ext)"

text \<open>
  The contract of the slow path, which the design leaves outside: called on a stream
  of the builder, \<^verbatim>\<open>AppendRowStreamFull\<close> touches streams only, and when it
  returns Ok the row is at the end of that stream and the rows of every other stream
  are as before.
\<close>

definition slow_path_contract :: "('row, 'v, 'ty) Externals \<Rightarrow> bool" where
  "slow_path_contract ext \<longleftrightarrow>
     (\<forall>b stream row status b'.
        get_stream b stream \<noteq> None \<and> AppendRowStreamFull ext b stream row = (status, b') \<longrightarrow>
          streams_only b b'
          \<and> (status = OK \<longrightarrow>
               (\<forall>s. rows_of b' s = rows_of b s @ (if s = stream then [row] else []))))"

text \<open>
  The (hash, RowIdx) pairs of the rows of a batch whose key is not NULL, row \<open>i\<close>
  paired with \<open>indices ! i\<close>, in batch order.
\<close>

fun keyed_pairs :: "('row \<Rightarrow> uint32_t option) \<Rightarrow> 'row list \<Rightarrow> RowIdx list \<Rightarrow> (uint32_t \<times> RowIdx) list" where
  "keyed_pairs key (row # rows) (row_idx # indices) =
     (case key row of
        None \<Rightarrow> keyed_pairs key rows indices
      | Some h \<Rightarrow> (h, row_idx) # keyed_pairs key rows indices)"
| "keyed_pairs key rows indices = []"

text \<open>
  The slots of a cache from the cursor on agree with the rows still to be read: each
  slot is flagged iff its row's key is NULL and otherwise holds the row's hash.
  \<open>groups_post\<close> is what the loop over the prefetch groups, started at row \<open>g\<close>,
  has done to the table when it returns.
\<close>

definition slots_hold :: "('row \<Rightarrow> uint32_t option) \<Rightarrow> ExprValuesCache \<Rightarrow> 'row list \<Rightarrow> bool" where
  "slots_hold key c rows \<longleftrightarrow>
     (\<forall>j < length rows.
        snd (slots c ! (cur c + j)) = (key (rows ! j) = None)
        \<and> (\<forall>h. key (rows ! j) = Some h \<longrightarrow> fst (slots c ! (cur c + j)) = h))"


text \<open>
  The cache after a write phase over the rows, from the cursor on: the slot of a row
  with a NULL key is flagged, the slot of any other row takes the row's hash, and the
  cursor moves by one for every row.
\<close>

fun written :: "('row \<Rightarrow> uint32_t option) \<Rightarrow> 'row list \<Rightarrow> ExprValuesCache \<Rightarrow> ExprValuesCache" where
  "written key [] c = c"
| "written key (row # rows) c =
     written key rows
       (NextRow (case key row of None \<Rightarrow> SetRowNull c | Some h \<Rightarrow> SetCurExprValuesHash h c))"

text \<open>
  The cache with which \<^verbatim>\<open>InsertBatch\<close> is to return when \<^verbatim>\<open>Insert\<close> fails on row
  \<open>j\<close> of the rows, for groups of \<open>C\<close> rows: every group before the group of row
  \<open>j\<close> has been written and read to its end, the group of row \<open>j\<close> has been
  written, and the read cursor is on the slot of row \<open>j\<close>. The rows after that
  group are not looked at.
\<close>

function cache_at_failure ::
  "('row \<Rightarrow> uint32_t option) \<Rightarrow> nat \<Rightarrow> 'row list \<Rightarrow> nat \<Rightarrow> ExprValuesCache \<Rightarrow> ExprValuesCache" where
  "cache_at_failure key C rows j c =
     (if j < C \<or> C = 0
      then (ResetForRead (written key (take C rows) (Reset c)))\<lparr>cur := j\<rparr>
      else cache_at_failure key C (drop C rows) (j - C)
             ((ResetForRead (written key (take C rows) (Reset c)))\<lparr>cur := C\<rparr>))"
  by pat_completeness auto
termination
  by (relation "measure (\<lambda>(key, C, rows, j, c). j)") auto

declare cache_at_failure.simps [simp del]

section \<open>Examples\<close>

text \<open>
  A builder with four partitions (\<open>B = 2\<close>), a null-aware partition and two filter
  contexts, the second without a bloom filter; a key evaluator that is NULL on row 1;
  a slow path that extends a stream holding fewer than four rows and fails otherwise.
\<close>

definition demo_slow :: "(nat, nat, unit) PhjBuilder \<Rightarrow> stream_ref \<Rightarrow> nat \<Rightarrow> Status \<times> (nat, nat, unit) PhjBuilder" where
  "demo_slow b stream row =
     (case get_stream b stream of
        None \<Rightarrow> (Error ''no such stream'', b)
      | Some s \<Rightarrow>
          if length (stream_rows s) < 4
          then (OK, put_stream b stream (s\<lparr>stream_rows := stream_rows s @ [row], page_room := 1\<rparr>))
          else (Error ''memory limit exceeded'', b))"

definition demo_ext :: "(nat, nat, unit) Externals" where
  "demo_ext = \<lparr>NUM_PARTITIONING_BITS = 2, DefaultHashSeed = 1234,
     GetHashValue = (\<lambda>v ty seed. case v of None \<Rightarrow> seed | Some x \<Rightarrow> of_nat x + seed),
     AppendRowStreamFull = demo_slow\<rparr>"

definition demo_partition :: "nat list \<Rightarrow> nat \<Rightarrow> nat Partition" where
  "demo_partition rows room =
     \<lparr>build_rows = \<lparr>stream_rows = rows, page_room = room, stream_status = OK\<rparr>, hash_tbl = None\<rparr>"

definition demo_filters :: "BloomFilter \<Rightarrow> (nat, nat, unit) FilterContext list" where
  "demo_filters bf =
     [\<lparr>expr = (\<lambda>r. if r = 2 then None else Some (r * 10)), expr_type = (), local_bloom_filter = Some bf\<rparr>,
      \<lparr>expr = (\<lambda>r. Some r), expr_type = (), local_bloom_filter = None\<rparr>]"

definition demo_builder :: "(nat, nat, unit) PhjBuilder" where
  "demo_builder = \<lparr>hash_partitions =
       [demo_partition [] 1, demo_partition [] 1, demo_partition [] 1, demo_partition [] 1],
     null_aware_partition = Some (demo_partition [] 1), filters = demo_filters {}\<rparr>"

definition demo_cache :: "uint32_t \<Rightarrow> ExprValuesCache" where
  "demo_cache h = \<lparr>slots = [(h, False), (0, False), (0, False), (0, False)], cur = 0, hash_end = 0\<rparr>"

definition demo_key :: "nat \<Rightarrow> uint32_t option" where
  "demo_key r = (if r = 0 then Some 0x10000000 else if r = 2 then Some 0x90000000
       else if r = 3 then Some 0xC0000004 else if r = 4 then Some 0x10000005 else None)"

definition demo_ctx :: "uint32_t \<Rightarrow> nat HashTableCtx" where
  "demo_ctx h = \<lparr>key_hash = demo_key, level = 0, expr_values_cache = demo_cache h\<rparr>"

definition demo_builder_after :: "(nat, nat, unit) PhjBuilder" where
  "demo_builder_after = \<lparr>hash_partitions =
       [demo_partition [0, 4] 1, demo_partition [] 1, demo_partition [2] 0, demo_partition [3] 0],
     null_aware_partition = Some (demo_partition [1] 0), filters = demo_filters {1234, 1264, 1274}\<rparr>"

definition demo_builder_plain :: "(nat, nat, unit) PhjBuilder" where
  "demo_builder_plain = demo_builder\<lparr>null_aware_partition := None\<rparr>"

definition demo_builder_plain_after :: "(nat, nat, unit) PhjBuilder" where
  "demo_builder_plain_after = demo_builder_after\<lparr>null_aware_partition := None, filters := demo_filters {}\<rparr>"

definition demo_builder_full :: "(nat, nat, unit) PhjBuilder" where
  "demo_builder_full = demo_builder\<lparr>hash_partitions :=
     [demo_partition [10, 11, 12, 13] 0, demo_partition [] 1, demo_partition [] 1, demo_partition [] 1]\<rparr>"

definition demo_builder_full_after :: "(nat, nat, unit) PhjBuilder" where
  "demo_builder_full_after = demo_builder\<lparr>hash_partitions :=
     [demo_partition [10, 11, 12, 13] 0, demo_partition [] 1, demo_partition [2] 0, demo_partition [] 1]\<rparr>"

text \<open>
  A batch of ten rows for a cache of capacity four, so that the last group has two
  rows, with its row identifiers, and a partition whose table takes \<open>n\<close> entries.
\<close>

definition demo_batch :: "nat list" where
  "demo_batch = [0, 1, 2, 3, 4, 0, 1, 2, 3, 4]"

definition demo_indices :: "RowIdx list" where
  "demo_indices = [100, 101, 102, 103, 104, 105, 106, 107, 108, 109]"

definition demo_table :: "nat \<Rightarrow> nat Partition" where
  "demo_table n = \<lparr>build_rows = \<lparr>stream_rows = demo_batch, page_room = 0, stream_status = OK\<rparr>,
     hash_tbl = Some \<lparr>entries = [], max_entries = n\<rparr>\<rparr>"

definition demo_table_after :: "nat \<Rightarrow> (uint32_t \<times> RowIdx) list \<Rightarrow> nat Partition" where
  "demo_table_after n es = \<lparr>build_rows = \<lparr>stream_rows = demo_batch, page_room = 0, stream_status = OK\<rparr>,
     hash_tbl = Some \<lparr>entries = es, max_entries = n\<rparr>\<rparr>"

definition demo_pairs :: "(uint32_t \<times> RowIdx) list" where
  "demo_pairs = [(0x10000000, 100), (0x90000000, 102), (0xC0000004, 103), (0x10000005, 104),
                 (0x10000000, 105), (0x90000000, 107), (0xC0000004, 108), (0x10000005, 109)]"

section \<open>Streams and AppendRow\<close>

lemma get_stream_put_stream:
  "get_stream (put_stream b r s) r' =
     (if r' = r \<and> get_stream b r \<noteq> None then Some s else get_stream b r')"
  by (cases r; cases r') (auto simp: nth_list_update split: option.splits)

lemma rows_of_put_stream:
  "get_stream b r \<noteq> None \<Longrightarrow>
   rows_of (put_stream b r s) r' = (if r' = r then stream_rows s else rows_of b r')"
  by (simp add: rows_of_def get_stream_put_stream)

lemma streams_only_refl: "streams_only b b"
  by (simp add: streams_only_def same_tables_def)

lemma streams_only_trans: "streams_only a b \<Longrightarrow> streams_only b c \<Longrightarrow> streams_only a c"
  by (simp add: streams_only_def same_tables_def)

lemma streams_only_put_stream: "streams_only b (put_stream b r s)"
proof (cases r)
  case NullAware
  then show ?thesis
    by (cases "null_aware_partition b") (simp_all add: streams_only_def same_tables_def)
next
  case (HashPartition i)
  have "map hash_tbl ((hash_partitions b)[i := (hash_partitions b ! i)\<lparr>build_rows := s\<rparr>])
        = map hash_tbl (hash_partitions b)"
    by (cases "i < length (hash_partitions b)") (simp_all add: map_update list_update_same_conv list_update_beyond)
  with HashPartition show ?thesis
    by (simp add: streams_only_def same_tables_def)
qed

lemma AppendRow_effect:
  assumes c: "slow_path_contract ext"
    and r: "AppendRow ext b r row = Returns (status, b')"
  shows "streams_only b b' \<and>
         (status = OK \<longrightarrow> (\<forall>s. rows_of b' s = rows_of b s @ (if s = r then [row] else [])))"
proof -
  from r obtain s where s: "get_stream b r = Some s"
    by (auto simp: AppendRow_def split: option.splits)
  have rs: "rows_of b r = stream_rows s"
    by (simp add: rows_of_def s)
  show ?thesis
  proof (cases "stream_status s \<noteq> OK")
    case True
    with r s show ?thesis
      by (auto simp: AppendRow_def AddRow_def streams_only_put_stream)
  next
    case ok: False
    show ?thesis
    proof (cases "page_room s = 0")
      case False
      with ok r s have b': "b' = put_stream b r (s\<lparr>stream_rows := stream_rows s @ [row], page_room := page_room s - 1\<rparr>)"
        and st: "status = OK"
        by (auto simp: AppendRow_def AddRow_def)
      show ?thesis
        using s by (auto simp: b' st streams_only_put_stream rows_of_put_stream rs)
    next
      case True
      with ok r s have slow: "AppendRowStreamFull ext (put_stream b r s) r row = (status, b')"
        by (auto simp: AppendRow_def AddRow_def)
      have g: "get_stream (put_stream b r s) r \<noteq> None"
        by (simp add: get_stream_put_stream s)
      from c g slow have 1: "streams_only (put_stream b r s) b'"
        and 2: "status = OK \<longrightarrow>
             (\<forall>t. rows_of b' t = rows_of (put_stream b r s) t @ (if t = r then [row] else []))"
        unfolding slow_path_contract_def by blast+
      have 3: "rows_of (put_stream b r s) t = rows_of b t" for t
        using s by (simp add: rows_of_put_stream rs)
      from 1 have "streams_only b b'"
        using streams_only_put_stream streams_only_trans by blast
      with 2 3 show ?thesis by simp
    qed
  qed
qed

section \<open>ProcessBuildBatch: one row, then the loop\<close>

lemma EvalAndHashBuild_NullKey:
  "EvalAndHashBuild ctx row = Returns (ok, ctx1) \<Longrightarrow> key_hash ctx row = None \<Longrightarrow>
   \<not> ok \<and> ctx1 = ctx"
  by (auto simp: EvalAndHashBuild_def split: if_splits)

lemma EvalAndHashBuild_hash:
  "EvalAndHashBuild ctx row = Returns (ok, ctx1) \<Longrightarrow> key_hash ctx row = Some h \<Longrightarrow>
   ok \<and> key_hash ctx1 = key_hash ctx \<and> level ctx1 = level ctx
   \<and> CurExprValuesHash (expr_values_cache ctx1) = h
   \<and> cur (expr_values_cache ctx1) = cur (expr_values_cache ctx)
   \<and> capacity (expr_values_cache ctx1) = capacity (expr_values_cache ctx)"
  by (auto simp: EvalAndHashBuild_def SetCurExprValuesHash_def CurExprValuesHash_def capacity_def
      split: if_splits)

lemma rows_of_filters_update [simp]: "rows_of (b\<lparr>filters := fs\<rparr>) s = rows_of b s"
  by (cases s) (simp_all add: rows_of_def)

lemma ProcessBuildRow_NullKey:
  assumes c: "slow_path_contract ext"
    and r: "ProcessBuildRow ext build_filters row (b, ctx) = Returns (status, b', ctx')"
    and k: "key_hash ctx row = None"
  shows "ctx' = ctx \<and> streams_only b b'
         \<and> (status = OK \<longrightarrow>
              (\<forall>s. rows_of b' s = rows_of b s
                 @ (if s = NullAware \<and> null_aware_partition b \<noteq> None then [row] else [])))"
proof -
  from r obtain ok ctx1 where e: "EvalAndHashBuild ctx row = Returns (ok, ctx1)"
    by (auto simp: ProcessBuildRow_def split: outcome.splits)
  from EvalAndHashBuild_NullKey [OF e k] have ok: "\<not> ok" and ctx1: "ctx1 = ctx" by simp_all
  show ?thesis
  proof (cases "null_aware_partition b")
    case None
    with r e ok ctx1 show ?thesis
      by (simp add: ProcessBuildRow_def streams_only_refl)
  next
    case (Some p)
    with r e ok ctx1 have a: "AppendRow ext b NullAware row = Returns (status, b')" and "ctx' = ctx"
      by (auto simp: ProcessBuildRow_def split: outcome.splits)
    with AppendRow_effect [OF c a] Some show ?thesis by simp
  qed
qed

lemma ProcessBuildRow_hash:
  assumes c: "slow_path_contract ext"
    and r: "ProcessBuildRow ext build_filters row (b, ctx) = Returns (status, b', ctx')"
    and k: "key_hash ctx row = Some h"
  shows "key_hash ctx' = key_hash ctx \<and> level ctx' = level ctx
         \<and> cur (expr_values_cache ctx') = cur (expr_values_cache ctx)
         \<and> capacity (expr_values_cache ctx') = capacity (expr_values_cache ctx)
         \<and> (build_filters \<longrightarrow> level ctx = 0)
         \<and> 0 < NUM_PARTITIONING_BITS ext \<and> NUM_PARTITIONING_BITS ext \<le> 32
         \<and> partition_of (NUM_PARTITIONING_BITS ext) h < length (hash_partitions b)
         \<and> same_tables b b'
         \<and> filters b' = (if build_filters then map (insert_filter ext row) (filters b) else filters b)
         \<and> (status = OK \<longrightarrow>
              (\<forall>s. rows_of b' s = rows_of b s
                 @ (if s = HashPartition (partition_of (NUM_PARTITIONING_BITS ext) h) then [row] else [])))"
proof -
  from r obtain ok ctx1 where e: "EvalAndHashBuild ctx row = Returns (ok, ctx1)"
    by (auto simp: ProcessBuildRow_def split: outcome.splits)
  note eh = EvalAndHashBuild_hash [OF e k]
  define b1 where "b1 = (if build_filters then b\<lparr>filters := map (insert_filter ext row) (filters b)\<rparr> else b)"
  define idx where "idx = partition_of (NUM_PARTITIONING_BITS ext) h"
  have hp: "hash_partitions b1 = hash_partitions b" and na: "null_aware_partition b1 = null_aware_partition b"
    by (simp_all add: b1_def)
  from r e eh have lv: "build_filters \<longrightarrow> level ctx = 0"
    by (auto simp: ProcessBuildRow_def split: if_splits)
  from r e eh have B: "0 < NUM_PARTITIONING_BITS ext \<and> NUM_PARTITIONING_BITS ext \<le> 32"
    by (auto simp: ProcessBuildRow_def split: if_splits)
  from r e eh lv B have len: "idx < length (hash_partitions b)"
    by (auto simp: ProcessBuildRow_def idx_def partition_of_def split: if_splits)
  from r e eh lv B len have a: "AppendRow ext b1 (HashPartition idx) row = Returns (status, b')"
    and c1: "ctx' = ctx1"
    by (auto simp: ProcessBuildRow_def idx_def partition_of_def b1_def split: if_splits outcome.splits)
  note ae = AppendRow_effect [OF c a]
  have rb1: "rows_of b1 s = rows_of b s" for s
    by (simp add: b1_def)
  from ae have "same_tables b b'"
    by (simp add: streams_only_def same_tables_def hp na)
  moreover from ae have "filters b' = (if build_filters then map (insert_filter ext row) (filters b) else filters b)"
    by (simp add: streams_only_def b1_def)
  ultimately show ?thesis
    using eh c1 lv B len ae by (simp add: rb1 idx_def)
qed

lemma same_tables_refl: "same_tables b b"
  by (simp add: same_tables_def)

lemma same_tables_trans: "same_tables a b \<Longrightarrow> same_tables b c \<Longrightarrow> same_tables a c"
  by (simp add: same_tables_def)

lemma same_tables_null_aware:
  "same_tables b b' \<Longrightarrow> null_aware_partition b' = None \<longleftrightarrow> null_aware_partition b = None"
  unfolding same_tables_def by (metis option.map_disc_iff)

lemma same_tables_length:
  "same_tables b b' \<Longrightarrow> length (hash_partitions b') = length (hash_partitions b)"
  unfolding same_tables_def by (metis length_map)

lemma ProcessBuildRow_frame:
  assumes c: "slow_path_contract ext"
    and r: "ProcessBuildRow ext build_filters row (b, ctx) = Returns (status, b', ctx')"
  shows "key_hash ctx' = key_hash ctx \<and> level ctx' = level ctx \<and> same_tables b b'
         \<and> filters b' = (if build_filters \<and> key_hash ctx row \<noteq> None
                          then map (insert_filter ext row) (filters b) else filters b)"
proof (cases "key_hash ctx row")
  case None
  from ProcessBuildRow_NullKey [OF c r None] show ?thesis
    by (simp add: None streams_only_def same_tables_def)
next
  case (Some h)
  from ProcessBuildRow_hash [OF c r Some] show ?thesis
    by (simp add: Some)
qed

lemma ProcessBuildRow_rows:
  assumes c: "slow_path_contract ext"
    and r: "ProcessBuildRow ext build_filters row (b, ctx) = Returns (OK, b', ctx')"
  shows "rows_of b' s = rows_of b s
           @ (if destination (NUM_PARTITIONING_BITS ext) (key_hash ctx) (null_aware_partition b \<noteq> None) row = Some s
              then [row] else [])"
proof (cases "key_hash ctx row")
  case None
  from ProcessBuildRow_NullKey [OF c r None] show ?thesis
    by (auto simp: None destination_def)
next
  case (Some h)
  from ProcessBuildRow_hash [OF c r Some] show ?thesis
    by (auto simp: Some destination_def)
qed

lemma ProcessBuildRows_frame:
  assumes c: "slow_path_contract ext"
  shows "ProcessBuildRows ext build_filters rows (b, ctx) = Returns (status, b', ctx') \<Longrightarrow>
         key_hash ctx' = key_hash ctx \<and> level ctx' = level ctx \<and> same_tables b b'
         \<and> (\<exists>done. filters b' = fold (\<lambda>row. map (insert_filter ext row)) done (filters b)
               \<and> (\<not> build_filters \<longrightarrow> done = []))"
proof (induction rows arbitrary: b ctx)
  case Nil
  then have "filters b' = fold (\<lambda>row. map (insert_filter ext row)) [] (filters b) \<and> (\<not> build_filters \<longrightarrow> [] = ([] :: 'a list))" by simp
  then have "\<exists>done. filters b' = fold (\<lambda>row. map (insert_filter ext row)) done (filters b) \<and> (\<not> build_filters \<longrightarrow> done = [])"
    by (rule exI)
  with Nil show ?case by (simp add: same_tables_refl)
next
  case (Cons row rows)
  from Cons.prems obtain st1 b1 ctx1 where
    r: "ProcessBuildRow ext build_filters row (b, ctx) = Returns (st1, b1, ctx1)"
    by (auto split: outcome.splits)
  note f = ProcessBuildRow_frame [OF c r]
  define d1 where "d1 = (if build_filters \<and> key_hash ctx row \<noteq> None then [row] else [])"
  have f1: "filters b1 = fold (\<lambda>row. map (insert_filter ext row)) d1 (filters b)"
    using f by (auto simp: d1_def)
  show ?case
  proof (cases "st1 = OK")
    case False
    with Cons.prems r have e: "status = st1" "b' = b1" "ctx' = ctx1" by simp_all
    have "filters b1 = fold (\<lambda>row. map (insert_filter ext row)) d1 (filters b)
          \<and> (\<not> build_filters \<longrightarrow> d1 = [])"
      using f1 by (simp add: d1_def)
    then have "\<exists>done. filters b1 = fold (\<lambda>row. map (insert_filter ext row)) done (filters b)
          \<and> (\<not> build_filters \<longrightarrow> done = [])"
      by (rule exI)
    with f e show ?thesis by simp
  next
    case True
    with Cons.prems r have "ProcessBuildRows ext build_filters rows (b1, ctx1) = Returns (status, b', ctx')"
      by simp
    from Cons.IH [OF this] obtain d2 where
      k: "key_hash ctx' = key_hash ctx1" "level ctx' = level ctx1" "same_tables b1 b'"
      and f2: "filters b' = fold (\<lambda>row. map (insert_filter ext row)) d2 (filters b1)"
      and n: "\<not> build_filters \<longrightarrow> d2 = []"
      by blast
    have "filters b' = fold (\<lambda>row. map (insert_filter ext row)) (d1 @ d2) (filters b)
          \<and> (\<not> build_filters \<longrightarrow> d1 @ d2 = [])"
      using n by (simp add: f1 f2 d1_def)
    then have "\<exists>done. filters b' = fold (\<lambda>row. map (insert_filter ext row)) done (filters b)
          \<and> (\<not> build_filters \<longrightarrow> done = [])"
      by (rule exI)
    moreover have "same_tables b b'"
      using f k same_tables_trans by blast
    ultimately show ?thesis
      using f k by simp
  qed
qed

lemma ProcessBuildRows_OK:
  assumes c: "slow_path_contract ext"
  shows "ProcessBuildRows ext build_filters rows (b, ctx) = Returns (OK, b', ctx') \<Longrightarrow>
         filters b' = fold (\<lambda>row. map (insert_filter ext row))
                        (filter (\<lambda>row. build_filters \<and> key_hash ctx row \<noteq> None) rows) (filters b)
         \<and> (\<forall>s. rows_of b' s = rows_of b s
               @ filter (\<lambda>row. destination (NUM_PARTITIONING_BITS ext) (key_hash ctx)
                            (null_aware_partition b \<noteq> None) row = Some s) rows)"
proof (induction rows arbitrary: b ctx)
  case Nil
  then show ?case by simp
next
  case (Cons row rows)
  from Cons.prems obtain st1 b1 ctx1 where
    r0: "ProcessBuildRow ext build_filters row (b, ctx) = Returns (st1, b1, ctx1)"
    by (auto split: outcome.splits)
  with Cons.prems have st1: "st1 = OK"
    by (auto split: if_splits)
  from r0 st1 have r: "ProcessBuildRow ext build_filters row (b, ctx) = Returns (OK, b1, ctx1)" by simp
  from Cons.prems r have rest: "ProcessBuildRows ext build_filters rows (b1, ctx1) = Returns (OK, b', ctx')"
    by simp
  note f = ProcessBuildRow_frame [OF c r]
  from f have "same_tables b b1" by simp
  then have na: "(null_aware_partition b1 \<noteq> None) = (null_aware_partition b \<noteq> None)"
    by (simp add: same_tables_null_aware)
  have kh: "key_hash ctx1 = key_hash ctx" using f by simp
  note ih = Cons.IH [OF rest, unfolded kh na]
  from ih have ihf: "filters b' = fold (\<lambda>row. map (insert_filter ext row))
                        (filter (\<lambda>row. build_filters \<and> key_hash ctx row \<noteq> None) rows) (filters b1)"
    and ihr: "\<And>s. rows_of b' s = rows_of b1 s
               @ filter (\<lambda>row. destination (NUM_PARTITIONING_BITS ext) (key_hash ctx)
                            (null_aware_partition b \<noteq> None) row = Some s) rows"
    by blast+
  from f have fb1: "filters b1 = (if build_filters \<and> key_hash ctx row \<noteq> None
                          then map (insert_filter ext row) (filters b) else filters b)"
    by blast
  have "filters b' = fold (\<lambda>row. map (insert_filter ext row))
                        (filter (\<lambda>row. build_filters \<and> key_hash ctx row \<noteq> None) (row # rows)) (filters b)"
    unfolding ihf fb1 by (cases build_filters; cases "key_hash ctx row") simp_all
  moreover have "rows_of b' s = rows_of b s
               @ filter (\<lambda>row. destination (NUM_PARTITIONING_BITS ext) (key_hash ctx)
                            (null_aware_partition b \<noteq> None) row = Some s) (row # rows)" for s
    unfolding ihr ProcessBuildRow_rows [OF c r, of s] by simp
  ultimately show ?case by blast
qed

lemma ProcessBuildRows_checks:
  assumes c: "slow_path_contract ext"
  shows "ProcessBuildRows ext build_filters rows (b, ctx) = Returns (OK, b', ctx') \<Longrightarrow>
         row \<in> set rows \<Longrightarrow> key_hash ctx row = Some h \<Longrightarrow>
         0 < NUM_PARTITIONING_BITS ext \<and> NUM_PARTITIONING_BITS ext \<le> 32
         \<and> partition_of (NUM_PARTITIONING_BITS ext) h < length (hash_partitions b)
         \<and> (build_filters \<longrightarrow> level ctx = 0)"
proof (induction rows arbitrary: b ctx)
  case Nil
  then show ?case by simp
next
  case (Cons x rows)
  from Cons.prems obtain st1 b1 ctx1 where
    r0: "ProcessBuildRow ext build_filters x (b, ctx) = Returns (st1, b1, ctx1)"
    by (auto split: outcome.splits)
  with Cons.prems have st1: "st1 = OK"
    by (auto split: if_splits)
  from r0 st1 have r: "ProcessBuildRow ext build_filters x (b, ctx) = Returns (OK, b1, ctx1)" by simp
  from Cons.prems r have rest: "ProcessBuildRows ext build_filters rows (b1, ctx1) = Returns (OK, b', ctx')"
    by simp
  note f = ProcessBuildRow_frame [OF c r]
  show ?case
  proof (cases "row = x")
    case True
    with ProcessBuildRow_hash [OF c r] Cons.prems show ?thesis by simp
  next
    case False
    with Cons.prems have "row \<in> set rows" by simp
    moreover have "key_hash ctx1 row = Some h" using f Cons.prems by simp
    ultimately have "0 < NUM_PARTITIONING_BITS ext \<and> NUM_PARTITIONING_BITS ext \<le> 32
         \<and> partition_of (NUM_PARTITIONING_BITS ext) h < length (hash_partitions b1)
         \<and> (build_filters \<longrightarrow> level ctx1 = 0)"
      using Cons.IH [OF rest] by blast
    moreover have "length (hash_partitions b1) = length (hash_partitions b)"
      using f by (simp add: same_tables_length)
    ultimately show ?thesis using f by simp
  qed
qed

subsection \<open>Bloom filters and partition indices\<close>

lemma insert_filter_fields:
  "expr (insert_filter ext row f) = expr f \<and> expr_type (insert_filter ext row f) = expr_type f
   \<and> local_bloom_filter (insert_filter ext row f)
       = map_option (\<lambda>bf. insert (filter_hash ext f row) bf) (local_bloom_filter f)
   \<and> without_bloom (insert_filter ext row f) = without_bloom f"
  by (cases "local_bloom_filter f")
     (simp_all add: insert_filter_def without_bloom_def filter_hash_def BloomFilter_Insert_def)

lemma fold_insert_filter_without_bloom:
  "map without_bloom (fold (\<lambda>row. map (insert_filter ext row)) rows fs) = map without_bloom fs"
  by (induction rows arbitrary: fs) (simp_all add: insert_filter_fields)


lemma partition_of_less:
  assumes "B \<le> 32"
  shows "partition_of B h < 2 ^ B"
proof -
  have "unat h < 2 ^ 32"
    using unsigned_less [of h] by simp
  also have "(2::nat) ^ 32 = 2 ^ (32 - B) * 2 ^ B"
    using assms by (simp flip: power_add)
  finally have "unat h div 2 ^ (32 - B) < 2 ^ B"
    by (simp add: less_mult_imp_div_less mult.commute)
  then show ?thesis
    by (simp only: partition_of_def unat_drop_bit_eq) (simp only: drop_bit_eq_div)
qed

subsection \<open>The batch as a whole\<close>

lemma demo_contract: "slow_path_contract demo_ext"
proof -
  have sel: "AppendRowStreamFull demo_ext = demo_slow"
    by (simp add: demo_ext_def)
  have "streams_only b b' \<and>
          (status = OK \<longrightarrow> (\<forall>s. rows_of b' s = rows_of b s @ (if s = stream then [row] else [])))"
    if g: "get_stream b stream \<noteq> None" and r: "demo_slow b stream row = (status, b')"
    for b stream row status b'
  proof -
    from g obtain s where s: "get_stream b stream = Some s" by blast
    have rs: "rows_of b stream = stream_rows s" by (simp add: rows_of_def s)
    show ?thesis
    proof (cases "length (stream_rows s) < 4")
      case True
      with r s have "status = OK"
        and "b' = put_stream b stream (s\<lparr>stream_rows := stream_rows s @ [row], page_room := 1\<rparr>)"
        by (simp_all add: demo_slow_def)
      then show ?thesis
        using g by (simp add: streams_only_put_stream rows_of_put_stream rs)
    next
      case False
      with r s have "status \<noteq> OK" and "b' = b"
        by (auto simp: demo_slow_def)
      then show ?thesis by (simp add: streams_only_refl)
    qed
  qed
  then show ?thesis
    unfolding slow_path_contract_def sel by blast
qed

lemma demo_run:
  "ProcessBuildBatch demo_ext demo_builder [0, 1, 2, 3, 4] (demo_ctx 0) True
     = Returns (OK, demo_builder_after, demo_ctx 0x10000005)"
  by (simp add: ProcessBuildBatch_def ProcessBuildRow_def demo_ext_def demo_builder_def demo_ctx_def
      demo_cache_def demo_key_def demo_builder_after_def demo_partition_def demo_filters_def demo_slow_def
      EvalAndHashBuild_def capacity_def Reset_def SetCurExprValuesHash_def CurExprValuesHash_def
      AppendRow_def AddRow_def insert_filter_def BloomFilter_Insert_def drop_bit_eq_div insert_commute)

lemma destination_HashPartition:
  "(destination B key na row = Some (HashPartition i)) = (map_option (partition_of B) (key row) = Some i)"
  by (cases "key row") (simp_all add: destination_def)

lemma destination_NullAware:
  "(destination B key na row = Some NullAware) = (key row = None \<and> na)"
  by (cases "key row") (simp_all add: destination_def)

lemma ProcessBuildBatch_rows:
  assumes c: "slow_path_contract ext"
    and r: "ProcessBuildBatch ext b build_batch ctx build_filters = Returns (OK, b', ctx')"
  shows "rows_of b' (HashPartition i) = rows_of b (HashPartition i)
           @ filter (\<lambda>row. map_option (partition_of (NUM_PARTITIONING_BITS ext)) (key_hash ctx row) = Some i)
               build_batch"
    and "rows_of b' NullAware = rows_of b NullAware
           @ filter (\<lambda>row. key_hash ctx row = None \<and> null_aware_partition b \<noteq> None) build_batch"
  using ProcessBuildRows_OK [OF c r [unfolded ProcessBuildBatch_def]]
  by (simp_all add: destination_HashPartition destination_NullAware)


lemma ProcessBuildBatch_checks:
  assumes c: "slow_path_contract ext"
    and r: "ProcessBuildBatch ext b build_batch ctx build_filters = Returns (OK, b', ctx')"
    and m: "row \<in> set build_batch" and k: "key_hash ctx row = Some h"
  shows "0 < NUM_PARTITIONING_BITS ext \<and> NUM_PARTITIONING_BITS ext \<le> 32
         \<and> partition_of (NUM_PARTITIONING_BITS ext) h < length (hash_partitions b)
         \<and> (build_filters \<longrightarrow> level ctx = 0)"
  using ProcessBuildRows_checks [OF c r [unfolded ProcessBuildBatch_def] m, of h] k by simp

lemma ProcessBuildBatch_frame:
  assumes c: "slow_path_contract ext"
    and r: "ProcessBuildBatch ext b build_batch ctx build_filters = Returns (status, b', ctx')"
  shows "same_tables b b'"
    and "map without_bloom (filters b') = map without_bloom (filters b)"
    and "\<not> build_filters \<Longrightarrow> filters b' = filters b"
proof -
  from ProcessBuildRows_frame [OF c r [unfolded ProcessBuildBatch_def]] obtain d where
    t: "same_tables b b'" and f: "filters b' = fold (\<lambda>row. map (insert_filter ext row)) d (filters b)"
    and n: "\<not> build_filters \<longrightarrow> d = []"
    by blast
  show "same_tables b b'" by (rule t)
  show "map without_bloom (filters b') = map without_bloom (filters b)"
    by (simp add: f fold_insert_filter_without_bloom)
  show "filters b' = filters b" if "\<not> build_filters"
    using that n f by simp
qed

text \<open>
  Claim C1. Let \<^verbatim>\<open>ProcessBuildBatch\<close> return Ok on a batch, with a slow append path
  that keeps its contract. For a row of the batch whose join keys hash to \<open>hash\<close>
  (not NULL), the partition index \<open>hash >> (32 - B)\<close> is below \<open>2 ^ B\<close> and is the
  index of an existing partition, and the row is in that partition's stream. More
  exactly, the stream of every hash partition \<open>i\<close> has gained, in batch order, the
  rows whose key is not NULL and whose hash shifted right by \<open>32 - B\<close> is \<open>i\<close>, and
  nothing else.
\<close>

theorem ProcessBuildBatch_partition_by_top_bits:
  assumes "slow_path_contract ext"
    and "ProcessBuildBatch ext b build_batch ctx build_filters = Returns (OK, b', ctx')"
    and "row \<in> set build_batch"
    and "key_hash ctx row = Some hash"
  shows "unat (drop_bit (32 - NUM_PARTITIONING_BITS ext) hash) < 2 ^ NUM_PARTITIONING_BITS ext
         \<and> unat (drop_bit (32 - NUM_PARTITIONING_BITS ext) hash) < length (hash_partitions b')
         \<and> row \<in> set (rows_of b' (HashPartition (unat (drop_bit (32 - NUM_PARTITIONING_BITS ext) hash))))
         \<and> (\<forall>i. rows_of b' (HashPartition i) = rows_of b (HashPartition i)
                @ filter (\<lambda>r. map_option (\<lambda>h. unat (drop_bit (32 - NUM_PARTITIONING_BITS ext) h))
                                 (key_hash ctx r) = Some i) build_batch)"
proof -
  let ?B = "NUM_PARTITIONING_BITS ext"
  note ck = ProcessBuildBatch_checks [OF assms]
  have p: "partition_of ?B = (\<lambda>h. unat (drop_bit (32 - ?B) h))"
    by (rule ext) (simp add: partition_of_def)
  have 1: "unat (drop_bit (32 - ?B) hash) < 2 ^ ?B"
    using partition_of_less [of ?B hash] ck by (simp add: p)
  have "length (hash_partitions b') = length (hash_partitions b)"
    using ProcessBuildBatch_frame(1) [OF assms(1,2)] by (rule same_tables_length)
  with ck have 2: "unat (drop_bit (32 - ?B) hash) < length (hash_partitions b')"
    by (simp add: p)
  have 4: "rows_of b' (HashPartition i) = rows_of b (HashPartition i)
                @ filter (\<lambda>r. map_option (\<lambda>h. unat (drop_bit (32 - ?B) h)) (key_hash ctx r) = Some i) build_batch"
    for i
    using ProcessBuildBatch_rows(1) [OF assms(1,2), of i] by (simp add: p)
  have 3: "row \<in> set (rows_of b' (HashPartition (unat (drop_bit (32 - ?B) hash))))"
    using assms(3,4) by (simp add: 4)
  from 1 2 3 4 show ?thesis by blast
qed




text \<open>
  Claim C9. Whatever status \<^verbatim>\<open>ProcessBuildBatch\<close> returns, with a slow append path
  that touches streams only: when \<open>build_filters\<close> is false the filter contexts are
  unchanged, bloom filters included; in every case the partitions keep their hash
  tables, the null-aware partition keeps its own, and the filter contexts are the
  same up to the contents of their bloom filters. What is left to change in the
  builder is the streams and the bloom filters.
\<close>

theorem ProcessBuildBatch_mutates_streams_and_blooms_only:
  assumes "slow_path_contract ext"
    and "ProcessBuildBatch ext b build_batch ctx build_filters = Returns (status, b', ctx')"
  shows "(\<not> build_filters \<longrightarrow> filters b' = filters b)
         \<and> map hash_tbl (hash_partitions b') = map hash_tbl (hash_partitions b)
         \<and> map_option hash_tbl (null_aware_partition b') = map_option hash_tbl (null_aware_partition b)
         \<and> map without_bloom (filters b') = map without_bloom (filters b)"
  using ProcessBuildBatch_frame [OF assms] by (simp add: same_tables_def)

subsection \<open>Errors\<close>




text \<open>
  Claim C8. \<^verbatim>\<open>AppendRow\<close> on a stream of the builder, by the result of the stream's
  non-growing \<^verbatim>\<open>AddRow\<close>: when the row was added, the result is Ok with the row
  at the end of the stream, and the slow path plays no part; when it was not added and
  the status is an error, the result is that error with the stream as before, and the
  slow path plays no part; when it was not added and the status is Ok, the result is
  that of one call of \<^verbatim>\<open>AppendRowStreamFull\<close> on the unchanged stream. With a slow
  path that keeps its contract, \<^verbatim>\<open>AppendRow\<close> returns, and then either the status is
  an error or the row is at the end of the stream.
\<close>

theorem AppendRow_fast_and_slow_path:
  assumes "get_stream b stream = Some s"
    and "AddRow s row = (added, status, s')"
  shows "(added \<longrightarrow> AppendRow ext b stream row = Returns (OK, put_stream b stream s')
                    \<and> stream_rows s' = stream_rows s @ [row])
         \<and> (\<not> added \<and> status \<noteq> OK \<longrightarrow>
               AppendRow ext b stream row = Returns (status, put_stream b stream s') \<and> s' = s)
         \<and> (\<not> added \<and> status = OK \<longrightarrow>
               AppendRow ext b stream row
                 = Returns (AppendRowStreamFull ext (put_stream b stream s') stream row) \<and> s' = s)
         \<and> (slow_path_contract ext \<longrightarrow>
               (\<exists>result b'. AppendRow ext b stream row = Returns (result, b')
                  \<and> (result = OK \<longrightarrow> rows_of b' stream = rows_of b stream @ [row])))"
proof -
  have 1: "added \<longrightarrow> AppendRow ext b stream row = Returns (OK, put_stream b stream s')
                    \<and> stream_rows s' = stream_rows s @ [row]"
    using assms by (auto simp: AppendRow_def AddRow_def split: if_splits)
  have 2: "\<not> added \<and> status \<noteq> OK \<longrightarrow>
               AppendRow ext b stream row = Returns (status, put_stream b stream s') \<and> s' = s"
    using assms by (auto simp: AppendRow_def AddRow_def split: if_splits)
  have 3: "\<not> added \<and> status = OK \<longrightarrow>
               AppendRow ext b stream row
                 = Returns (AppendRowStreamFull ext (put_stream b stream s') stream row) \<and> s' = s"
    using assms by (auto simp: AppendRow_def AddRow_def split: if_splits)
  have 4: "\<exists>result b'. AppendRow ext b stream row = Returns (result, b')
                  \<and> (result = OK \<longrightarrow> rows_of b' stream = rows_of b stream @ [row])"
    if c: "slow_path_contract ext"
  proof -
    have "\<exists>result b'. AppendRow ext b stream row = Returns (result, b')"
      using assms by (cases "AppendRowStreamFull ext (put_stream b stream s') stream row")
        (simp add: AppendRow_def)
    then obtain result b' where r: "AppendRow ext b stream row = Returns (result, b')"
      by blast
    from AppendRow_effect [OF c r] r show ?thesis by simp
  qed
  from 1 2 3 4 show ?thesis by blast
qed

subsection \<open>Counting rows\<close>

lemma sum_list_indicator:
  "sum_list (map (\<lambda>i. if i = j then 1 else 0) [0..<n]) = (if j < n then (1::nat) else 0)"
  by (induction n) auto

lemma total_rows_alt:
  "total_rows b = sum_list (map (\<lambda>i. length (rows_of b (HashPartition i))) [0..<length (hash_partitions b)])
                  + length (rows_of b NullAware)"
proof -
  have "map (\<lambda>p. length (stream_rows (build_rows p))) (hash_partitions b)
        = map (\<lambda>i. length (rows_of b (HashPartition i))) [0..<length (hash_partitions b)]"
    by (rule nth_equalityI) (simp_all add: rows_of_def)
  moreover have "(case null_aware_partition b of None \<Rightarrow> 0 | Some p \<Rightarrow> length (stream_rows (build_rows p)))
        = length (rows_of b NullAware)"
    by (cases "null_aware_partition b") (simp_all add: rows_of_def)
  ultimately show ?thesis
    by (simp add: total_rows_def)
qed

lemma count_destinations:
  assumes "\<forall>row\<in>set rows. \<forall>h. key row = Some h \<longrightarrow> partition_of B h < n"
  shows "sum_list (map (\<lambda>i. length (filter (\<lambda>row. destination B key na row = Some (HashPartition i)) rows)) [0..<n])
         + length (filter (\<lambda>row. destination B key na row = Some NullAware) rows)
         = length (filter (\<lambda>row. key row \<noteq> None \<or> na) rows)"
  using assms
proof (induction rows)
  case Nil
  then show ?case by simp
next
  case (Cons x rows)
  then have ih: "sum_list (map (\<lambda>i. length (filter (\<lambda>row. destination B key na row = Some (HashPartition i)) rows)) [0..<n])
         + length (filter (\<lambda>row. destination B key na row = Some NullAware) rows)
         = length (filter (\<lambda>row. key row \<noteq> None \<or> na) rows)"
    by simp
  show ?case
  proof (cases "key x")
    case None
    then have "map (\<lambda>i. length (filter (\<lambda>row. destination B key na row = Some (HashPartition i)) (x # rows))) [0..<n]
        = map (\<lambda>i. length (filter (\<lambda>row. destination B key na row = Some (HashPartition i)) rows)) [0..<n]"
      by (simp add: destination_def)
    with ih None show ?thesis
      by (simp add: destination_def)
  next
    case (Some h)
    with Cons.prems have j: "partition_of B h < n" by simp
    have "map (\<lambda>i. length (filter (\<lambda>row. destination B key na row = Some (HashPartition i)) (x # rows))) [0..<n]
        = map (\<lambda>i. (if i = partition_of B h then 1 else 0)
                  + length (filter (\<lambda>row. destination B key na row = Some (HashPartition i)) rows)) [0..<n]"
      using Some by (auto simp: destination_def)
    then have "sum_list (map (\<lambda>i. length (filter (\<lambda>row. destination B key na row = Some (HashPartition i)) (x # rows))) [0..<n])
        = 1 + sum_list (map (\<lambda>i. length (filter (\<lambda>row. destination B key na row = Some (HashPartition i)) rows)) [0..<n])"
      using j by (simp only: sum_list_addf sum_list_indicator) simp
    with ih Some show ?thesis
      by (simp add: destination_def)
  qed
qed

lemma demo_run_dropped:
  "ProcessBuildBatch demo_ext demo_builder_plain [1, 5] (demo_ctx 0) False
     = Returns (OK, demo_builder_plain, demo_ctx 0)"
  by (simp add: ProcessBuildBatch_def ProcessBuildRow_def demo_builder_plain_def demo_builder_def
      demo_ctx_def demo_cache_def demo_key_def EvalAndHashBuild_def capacity_def Reset_def)

text \<open>
  Claim C6, as stated, fails: without a null-aware partition the rows with NULL keys
  are dropped, so a successful batch of two such rows appends nothing.
\<close>

theorem ProcessBuildBatch_row_count_counterexample:
  "slow_path_contract demo_ext
   \<and> ProcessBuildBatch demo_ext demo_builder_plain [1, 5] (demo_ctx 0) False
       = Returns (OK, demo_builder_plain, demo_ctx 0)
   \<and> total_rows demo_builder_plain \<noteq> total_rows demo_builder_plain + length [1 :: nat, 5]"
  using demo_contract demo_run_dropped by simp

text \<open>
  Claim C6, amended. When \<^verbatim>\<open>ProcessBuildBatch\<close> returns Ok, the number of rows
  appended to the hash partitions and the null-aware partition, plus the number of
  rows with NULL keys when the builder has no null-aware partition, is the number
  of rows of the batch; and every stream has gained its rows in batch order.
\<close>

theorem ProcessBuildBatch_row_count:
  assumes "slow_path_contract ext"
    and "ProcessBuildBatch ext b build_batch ctx build_filters = Returns (OK, b', ctx')"
  shows "total_rows b'
           + (if null_aware_partition b = None
              then length (filter (\<lambda>row. key_hash ctx row = None) build_batch) else 0)
         = total_rows b + length build_batch
         \<and> (\<forall>stream. rows_of b' stream = rows_of b stream
               @ filter (\<lambda>row. destination (NUM_PARTITIONING_BITS ext) (key_hash ctx)
                                  (null_aware_partition b \<noteq> None) row = Some stream) build_batch)"
proof -
  let ?n = "length (hash_partitions b)"
  let ?D = "\<lambda>s. filter (\<lambda>row. destination (NUM_PARTITIONING_BITS ext) (key_hash ctx)
                                  (null_aware_partition b \<noteq> None) row = Some s) build_batch"
  have rows: "rows_of b' s = rows_of b s @ ?D s" for s
    using ProcessBuildRows_OK [OF assms(1) assms(2) [unfolded ProcessBuildBatch_def]] by simp
  have len: "length (hash_partitions b') = ?n"
    using ProcessBuildBatch_frame(1) [OF assms] by (rule same_tables_length)
  have "\<forall>row\<in>set build_batch. \<forall>h. key_hash ctx row = Some h
          \<longrightarrow> partition_of (NUM_PARTITIONING_BITS ext) h < ?n"
    using ProcessBuildBatch_checks [OF assms] by blast
  from count_destinations [OF this, of "null_aware_partition b \<noteq> None"]
  have cnt: "sum_list (map (\<lambda>i. length (?D (HashPartition i))) [0..<?n]) + length (?D NullAware)
         = length (filter (\<lambda>row. key_hash ctx row \<noteq> None \<or> null_aware_partition b \<noteq> None) build_batch)" .
  have "total_rows b' = sum_list (map (\<lambda>i. length (rows_of b (HashPartition i)) + length (?D (HashPartition i))) [0..<?n])
                  + (length (rows_of b NullAware) + length (?D NullAware))"
    by (simp add: total_rows_alt [of b'] len rows)
  also have "\<dots> = total_rows b + (sum_list (map (\<lambda>i. length (?D (HashPartition i))) [0..<?n]) + length (?D NullAware))"
    by (simp only: sum_list_addf total_rows_alt [of b])
  finally have t: "total_rows b' = total_rows b
           + length (filter (\<lambda>row. key_hash ctx row \<noteq> None \<or> null_aware_partition b \<noteq> None) build_batch)"
    by (simp only: cnt)
  have "total_rows b'
           + (if null_aware_partition b = None
              then length (filter (\<lambda>row. key_hash ctx row = None) build_batch) else 0)
         = total_rows b + length build_batch"
  proof (cases "null_aware_partition b")
    case None
    have "length (filter (\<lambda>row. key_hash ctx row \<noteq> None) build_batch)
            + length (filter (\<lambda>row. key_hash ctx row = None) build_batch) = length build_batch"
      using sum_length_filter_compl [of "\<lambda>row. key_hash ctx row \<noteq> None" build_batch] by simp
    with t None show ?thesis by simp
  next
    case (Some p)
    with t show ?thesis by simp
  qed
  with rows show ?thesis by blast
qed

subsection \<open>The properties on the example builder\<close>

lemmas demo_defs = demo_ext_def demo_builder_def demo_ctx_def demo_cache_def demo_key_def
  demo_builder_after_def demo_partition_def demo_filters_def demo_slow_def demo_builder_plain_def
  demo_builder_plain_after_def demo_builder_full_def demo_builder_full_after_def

lemmas run_defs = ProcessBuildBatch_def ProcessBuildRow_def EvalAndHashBuild_def capacity_def Reset_def
  SetCurExprValuesHash_def CurExprValuesHash_def AppendRow_def AddRow_def insert_filter_def
  BloomFilter_Insert_def drop_bit_eq_div

lemma demo_run_plain:
  "ProcessBuildBatch demo_ext demo_builder_plain [0, 1, 2, 3, 4] (demo_ctx 0) False
     = Returns (OK, demo_builder_plain_after, demo_ctx 0x10000005)"
  by (simp add: demo_defs run_defs)



lemma demo_key_2: "key_hash (demo_ctx 0) 2 = Some 0x90000000"
  by (simp add: demo_ctx_def demo_key_def)

theorem ProcessBuildBatch_partition_by_top_bits_witness:
  "ProcessBuildBatch demo_ext demo_builder [0, 1, 2, 3, 4] (demo_ctx 0) True
     = Returns (OK, demo_builder_after, demo_ctx 0x10000005)
   \<and> key_hash (demo_ctx 0) 2 = Some 0x90000000
   \<and> unat (drop_bit (32 - NUM_PARTITIONING_BITS demo_ext) (0x90000000 :: uint32_t)) = 2
   \<and> 2 \<in> set (rows_of demo_builder_after
                 (HashPartition (unat (drop_bit (32 - NUM_PARTITIONING_BITS demo_ext) (0x90000000 :: uint32_t)))))"
proof -
  have m: "(2::nat) \<in> set [0, 1, 2, 3, 4]" by simp
  have i: "unat (drop_bit (32 - NUM_PARTITIONING_BITS demo_ext) (0x90000000 :: uint32_t)) = 2"
    by (simp add: demo_ext_def drop_bit_eq_div)
  from ProcessBuildBatch_partition_by_top_bits [OF demo_contract demo_run m demo_key_2]
  have "2 \<in> set (rows_of demo_builder_after
                 (HashPartition (unat (drop_bit (32 - NUM_PARTITIONING_BITS demo_ext) (0x90000000 :: uint32_t)))))"
    by blast
  with demo_run demo_key_2 i show ?thesis by blast
qed




theorem ProcessBuildBatch_mutates_streams_and_blooms_only_witness:
  "filters demo_builder_plain_after = filters demo_builder_plain
   \<and> map hash_tbl (hash_partitions demo_builder_plain_after) = map hash_tbl (hash_partitions demo_builder_plain)
   \<and> stream_rows (build_rows (hash_partitions demo_builder_plain_after ! 0)) = [0, 4]"
proof -
  have a: "stream_rows (build_rows (hash_partitions demo_builder_plain_after ! 0)) = [0, 4]"
    by (simp add: demo_defs)
  from ProcessBuildBatch_mutates_streams_and_blooms_only [OF demo_contract demo_run_plain] a
  show ?thesis by blast
qed


theorem AppendRow_fast_and_slow_path_witness:
  "AppendRow demo_ext demo_builder_after (HashPartition 2) 7
     = Returns (AppendRowStreamFull demo_ext
         (put_stream demo_builder_after (HashPartition 2) (build_rows (demo_partition [2] 0)))
         (HashPartition 2) 7)
   \<and> AppendRowStreamFull demo_ext
         (put_stream demo_builder_after (HashPartition 2) (build_rows (demo_partition [2] 0)))
         (HashPartition 2) 7
       = (OK, put_stream demo_builder_after (HashPartition 2)
                \<lparr>stream_rows = [2, 7], page_room = 1, stream_status = OK\<rparr>)"
proof -
  have g: "get_stream demo_builder_after (HashPartition 2) = Some (build_rows (demo_partition [2] 0))"
    by (simp add: demo_defs)
  have a: "AddRow (build_rows (demo_partition [2] 0)) 7 = (False, OK, build_rows (demo_partition [2] 0))"
    by (simp add: AddRow_def demo_defs)
  have s: "AppendRowStreamFull demo_ext
         (put_stream demo_builder_after (HashPartition 2) (build_rows (demo_partition [2] 0)))
         (HashPartition 2) 7
       = (OK, put_stream demo_builder_after (HashPartition 2)
                \<lparr>stream_rows = [2, 7], page_room = 1, stream_status = OK\<rparr>)"
    by (simp add: demo_defs)
  from AppendRow_fast_and_slow_path [OF g a, of demo_ext] s show ?thesis by blast
qed

theorem ProcessBuildBatch_row_count_witness:
  "total_rows demo_builder_plain_after = 4 \<and> total_rows demo_builder_plain = 0
   \<and> total_rows demo_builder_plain_after
        + (if null_aware_partition demo_builder_plain = None
           then length (filter (\<lambda>row. key_hash (demo_ctx 0) row = None) [0, 1, 2, 3, 4]) else 0)
      = total_rows demo_builder_plain + length [0 :: nat, 1, 2, 3, 4]"
proof -
  have a: "total_rows demo_builder_plain_after = 4 \<and> total_rows demo_builder_plain = 0"
    by (simp add: total_rows_def demo_defs)
  from ProcessBuildBatch_row_count [OF demo_contract demo_run_plain] a show ?thesis by blast
qed

section \<open>InsertBatch\<close>

subsection \<open>Write phase and read phase of a group\<close>

lemma write_phase_effect:
  "write_phase mode p rows ctx = Returns ctx' \<Longrightarrow>
   key_hash ctx' = key_hash ctx \<and> level ctx' = level ctx
   \<and> cur (expr_values_cache ctx') = cur (expr_values_cache ctx) + length rows
   \<and> length (slots (expr_values_cache ctx')) = length (slots (expr_values_cache ctx))
   \<and> (\<forall>i < cur (expr_values_cache ctx).
         slots (expr_values_cache ctx') ! i = slots (expr_values_cache ctx) ! i)
   \<and> (\<forall>j < length rows.
         snd (slots (expr_values_cache ctx') ! (cur (expr_values_cache ctx) + j))
           = (snd (slots (expr_values_cache ctx) ! (cur (expr_values_cache ctx) + j))
              \<or> key_hash ctx (rows ! j) = None)
         \<and> (\<forall>h. key_hash ctx (rows ! j) = Some h \<longrightarrow>
               fst (slots (expr_values_cache ctx') ! (cur (expr_values_cache ctx) + j)) = h))"
proof (induction rows arbitrary: ctx)
  case Nil
  then show ?case by simp
next
  case (Cons row rows)
  let ?c = "expr_values_cache ctx"
  let ?k = "cur ?c"
  from Cons.prems have k: "?k < length (slots ?c)"
    by (auto simp: EvalAndHashBuild_def capacity_def split: if_splits)
  define ctx1 where "ctx1 = (case key_hash ctx row of
      None \<Rightarrow> ctx\<lparr>expr_values_cache := NextRow (SetRowNull ?c)\<rparr>
    | Some h \<Rightarrow> ctx\<lparr>expr_values_cache := NextRow (SetCurExprValuesHash h ?c)\<rparr>)"
  have rest: "write_phase mode p rows ctx1 = Returns ctx'"
    using Cons.prems k
    by (cases "key_hash ctx row")
       (auto simp: ctx1_def EvalAndHashBuild_def capacity_def split: if_splits)
  let ?c1 = "expr_values_cache ctx1"
  have c1: "key_hash ctx1 = key_hash ctx" "level ctx1 = level ctx" "cur ?c1 = Suc ?k"
    "length (slots ?c1) = length (slots ?c)"
    by (cases "key_hash ctx row"; simp add: ctx1_def NextRow_def SetRowNull_def SetCurExprValuesHash_def)+
  have s1: "slots ?c1 ! i = slots ?c ! i" if "i \<noteq> ?k" for i
    using that
    by (cases "key_hash ctx row"; simp add: ctx1_def NextRow_def SetRowNull_def SetCurExprValuesHash_def)
  have sk: "snd (slots ?c1 ! ?k) = (snd (slots ?c ! ?k) \<or> key_hash ctx row = None)
            \<and> (\<forall>h. key_hash ctx row = Some h \<longrightarrow> fst (slots ?c1 ! ?k) = h)"
    using k
    by (cases "key_hash ctx row"; simp add: ctx1_def NextRow_def SetRowNull_def SetCurExprValuesHash_def)
  note ih = Cons.IH [OF rest, unfolded c1]
  note ih_low = ih [THEN conjunct2, THEN conjunct2, THEN conjunct2, THEN conjunct2, THEN conjunct1, rule_format]
  note ih_slots = ih [THEN conjunct2, THEN conjunct2, THEN conjunct2, THEN conjunct2, THEN conjunct2, rule_format]
  have a1: "key_hash ctx' = key_hash ctx" using ih [THEN conjunct1] .
  have a2: "level ctx' = level ctx" using ih [THEN conjunct2, THEN conjunct1] .
  have a3: "cur (expr_values_cache ctx') = ?k + length (row # rows)"
    using ih [THEN conjunct2, THEN conjunct2, THEN conjunct1] by simp
  have a4: "length (slots (expr_values_cache ctx')) = length (slots ?c)"
    using ih [THEN conjunct2, THEN conjunct2, THEN conjunct2, THEN conjunct1] .
  have b: "\<forall>i < ?k. slots (expr_values_cache ctx') ! i = slots ?c ! i"
  proof (intro allI impI)
    fix i assume "i < ?k"
    then show "slots (expr_values_cache ctx') ! i = slots ?c ! i"
      using ih_low [of i] s1 [of i] by simp
  qed
  have d: "\<forall>j < length (row # rows).
         snd (slots (expr_values_cache ctx') ! (?k + j))
           = (snd (slots ?c ! (?k + j)) \<or> key_hash ctx ((row # rows) ! j) = None)
         \<and> (\<forall>h. key_hash ctx ((row # rows) ! j) = Some h \<longrightarrow>
               fst (slots (expr_values_cache ctx') ! (?k + j)) = h)"
  proof (intro allI impI)
    fix j assume j: "j < length (row # rows)"
    show "snd (slots (expr_values_cache ctx') ! (?k + j))
           = (snd (slots ?c ! (?k + j)) \<or> key_hash ctx ((row # rows) ! j) = None)
         \<and> (\<forall>h. key_hash ctx ((row # rows) ! j) = Some h \<longrightarrow>
               fst (slots (expr_values_cache ctx') ! (?k + j)) = h)"
    proof (cases j)
      case 0
      have "slots (expr_values_cache ctx') ! ?k = slots ?c1 ! ?k"
        using ih_low [of ?k] by simp
      with sk 0 show ?thesis by simp
    next
      case (Suc j')
      with j have "j' < length rows" by simp
      from ih_slots [OF this] Suc s1 [of "Suc ?k + j'"] show ?thesis by simp
    qed
  qed
  from a1 a2 a3 a4 b d show ?case by (intro conjI)
qed

lemma slots_hold_Cons:
  assumes "slots_hold key c (row # rows)"
  shows "snd (slots c ! cur c) = (key row = None)"
    and "key row = Some h \<Longrightarrow> fst (slots c ! cur c) = h"
    and "slots_hold key (NextRow c) rows"
proof -
  have 0: "snd (slots c ! (cur c + 0)) = (key ((row # rows) ! 0) = None)
        \<and> (\<forall>h. key ((row # rows) ! 0) = Some h \<longrightarrow> fst (slots c ! (cur c + 0)) = h)"
    by (rule assms [unfolded slots_hold_def, rule_format, of 0]) simp
  from 0 show "snd (slots c ! cur c) = (key row = None)" by simp
  from 0 show "fst (slots c ! cur c) = h" if "key row = Some h" using that by simp
  show "slots_hold key (NextRow c) rows"
    unfolding slots_hold_def
  proof (intro allI impI)
    fix j assume "j < length rows"
    then have "Suc j < length (row # rows)" by simp
    then have "snd (slots c ! (cur c + Suc j)) = (key ((row # rows) ! Suc j) = None)
        \<and> (\<forall>h. key ((row # rows) ! Suc j) = Some h \<longrightarrow> fst (slots c ! (cur c + Suc j)) = h)"
      by (rule assms [unfolded slots_hold_def, rule_format, of "Suc j"])
    then show "snd (slots (NextRow c) ! (cur (NextRow c) + j)) = (key (rows ! j) = None)
        \<and> (\<forall>h. key (rows ! j) = Some h \<longrightarrow> fst (slots (NextRow c) ! (cur (NextRow c) + j)) = h)"
      by (simp add: NextRow_def)
  qed
qed

lemma write_phase_returns:
  "cur (expr_values_cache ctx) + length rows \<le> capacity (expr_values_cache ctx) \<Longrightarrow>
   (prefetch_mode \<noteq> NONE \<longrightarrow> hash_tbl p \<noteq> None) \<Longrightarrow>
   \<exists>ctx'. write_phase prefetch_mode p rows ctx = Returns ctx'"
proof (induction rows arbitrary: ctx)
  case Nil
  show ?case by simp
next
  case (Cons row rows)
  from Cons.prems(1) have k: "\<not> capacity (expr_values_cache ctx) \<le> cur (expr_values_cache ctx)"
    by simp
  from Cons.prems(2) have pm: "\<not> (prefetch_mode \<noteq> NONE \<and> hash_tbl p = None)"
    by blast
  show ?case
  proof (cases "key_hash ctx row")
    case None
    let ?ctx1 = "ctx\<lparr>expr_values_cache := NextRow (SetRowNull (expr_values_cache ctx))\<rparr>"
    have e: "EvalAndHashBuild ctx row = Returns (False, ctx)"
      using k None by (simp add: EvalAndHashBuild_def)
    have "cur (expr_values_cache ?ctx1) + length rows \<le> capacity (expr_values_cache ?ctx1)"
      using Cons.prems(1) by (simp add: NextRow_def SetRowNull_def capacity_def)
    from Cons.IH [OF this Cons.prems(2)] obtain ctx' where
      "write_phase prefetch_mode p rows ?ctx1 = Returns ctx'" by blast
    then have "write_phase prefetch_mode p (row # rows) ctx = Returns ctx'"
      by (simp add: e)
    then show ?thesis by (rule exI)
  next
    case (Some h)
    let ?ctx0 = "ctx\<lparr>expr_values_cache := SetCurExprValuesHash h (expr_values_cache ctx)\<rparr>"
    let ?ctx1 = "?ctx0\<lparr>expr_values_cache := NextRow (expr_values_cache ?ctx0)\<rparr>"
    have e: "EvalAndHashBuild ctx row = Returns (True, ?ctx0)"
      using k Some by (simp add: EvalAndHashBuild_def)
    have "cur (expr_values_cache ?ctx1) + length rows \<le> capacity (expr_values_cache ?ctx1)"
      using Cons.prems(1) by (simp add: NextRow_def SetCurExprValuesHash_def capacity_def)
    from Cons.IH [OF this Cons.prems(2)] obtain ctx' where
      "write_phase prefetch_mode p rows ?ctx1 = Returns ctx'" by blast
    then have "write_phase prefetch_mode p (row # rows) ctx = Returns ctx'"
      using pm by (simp add: e)
    then show ?thesis by (rule exI)
  qed
qed


lemma write_phase_bound:
  "write_phase mode p rows ctx = Returns ctx' \<Longrightarrow> rows \<noteq> [] \<Longrightarrow>
   cur (expr_values_cache ctx) + length rows \<le> capacity (expr_values_cache ctx)"
proof (induction rows arbitrary: ctx)
  case Nil
  then show ?case by simp
next
  case (Cons row rows)
  let ?c = "expr_values_cache ctx"
  from Cons.prems(1) have k: "cur ?c < capacity ?c"
    by (auto simp: EvalAndHashBuild_def split: if_splits)
  show ?case
  proof (cases "rows = []")
    case True
    with k show ?thesis by simp
  next
    case False
    define ctx1 where "ctx1 = (case key_hash ctx row of
        None \<Rightarrow> ctx\<lparr>expr_values_cache := NextRow (SetRowNull ?c)\<rparr>
      | Some h \<Rightarrow> ctx\<lparr>expr_values_cache := NextRow (SetCurExprValuesHash h ?c)\<rparr>)"
    have rest: "write_phase mode p rows ctx1 = Returns ctx'"
      using Cons.prems(1) k
      by (cases "key_hash ctx row")
         (auto simp: ctx1_def EvalAndHashBuild_def split: if_splits)
    have c1: "cur (expr_values_cache ctx1) = Suc (cur ?c)"
      "capacity (expr_values_cache ctx1) = capacity ?c"
      by (cases "key_hash ctx row";
          simp add: ctx1_def NextRow_def SetRowNull_def SetCurExprValuesHash_def capacity_def)+
    from Cons.IH [OF rest False] show ?thesis
      by (simp add: c1)
  qed
qed


lemma keyed_pairs_take_drop:
  "keyed_pairs key rows indices
     = keyed_pairs key (take n rows) indices @ keyed_pairs key (drop n rows) (drop n indices)"
proof (induction n arbitrary: rows indices)
  case 0
  show ?case by simp
next
  case (Suc n)
  show ?case
  proof (cases rows)
    case Nil
    then show ?thesis by simp
  next
    case (Cons row rows')
    show ?thesis
    proof (cases indices)
      case Nil
      with Cons show ?thesis by simp
    next
      case (Cons i indices')
      with \<open>rows = row # rows'\<close> Suc [of rows' indices'] show ?thesis
        by (cases "key row") simp_all
    qed
  qed
qed

subsection \<open>Groups and the outer loop\<close>



subsection \<open>The properties of InsertBatch\<close>







subsection \<open>The state at a failed Insert\<close>

lemma written_capacity: "capacity (written key rows c) = capacity c"
  by (induction rows arbitrary: c)
     (auto simp: capacity_def NextRow_def SetRowNull_def SetCurExprValuesHash_def split: option.splits)

lemma write_phase_written:
  "write_phase mode p rows ctx = Returns ctx1 \<Longrightarrow>
   ctx1 = ctx\<lparr>expr_values_cache := written (key_hash ctx) rows (expr_values_cache ctx)\<rparr>"
proof (induction rows arbitrary: ctx)
  case Nil
  then show ?case by simp
next
  case (Cons row rows)
  let ?c = "expr_values_cache ctx"
  from Cons.prems have k: "\<not> capacity ?c \<le> cur ?c"
    by (auto simp: EvalAndHashBuild_def split: if_splits)
  show ?case
  proof (cases "key_hash ctx row")
    case None
    let ?ctx1 = "ctx\<lparr>expr_values_cache := NextRow (SetRowNull ?c)\<rparr>"
    from Cons.prems k None have "write_phase mode p rows ?ctx1 = Returns ctx1"
      by (simp add: EvalAndHashBuild_def)
    from Cons.IH [OF this] None show ?thesis by simp
  next
    case (Some h)
    let ?ctx1 = "ctx\<lparr>expr_values_cache := NextRow (SetCurExprValuesHash h ?c)\<rparr>"
    from Cons.prems k Some have "write_phase mode p rows ?ctx1 = Returns ctx1"
      by (simp add: EvalAndHashBuild_def split: if_splits)
    from Cons.IH [OF this] Some show ?thesis by simp
  qed
qed

lemma read_phase_succeeds:
  "hash_tbl p = Some ht \<Longrightarrow>
   slots_hold (key_hash ctx) (expr_values_cache ctx) rows \<Longrightarrow>
   cur_row + length rows \<le> length indices \<Longrightarrow>
   length (entries ht) + length (keyed_pairs (key_hash ctx) rows (drop cur_row indices)) \<le> max_entries ht \<Longrightarrow>
   read_phase indices rows cur_row (ctx, p)
     = Returns (True,
         ctx\<lparr>expr_values_cache := (expr_values_cache ctx)\<lparr>cur := cur (expr_values_cache ctx) + length rows\<rparr>\<rparr>,
         p\<lparr>hash_tbl := Some (ht\<lparr>entries := entries ht
                @ keyed_pairs (key_hash ctx) rows (drop cur_row indices)\<rparr>)\<rparr>)"
proof (induction rows arbitrary: cur_row ctx p ht)
  case Nil
  then show ?case by simp
next
  case (Cons row rows)
  let ?c = "expr_values_cache ctx"
  let ?ctx1 = "ctx\<lparr>expr_values_cache := NextRow ?c\<rparr>"
  let ?idx = "indices ! cur_row"
  from Cons.prems(3) have i: "\<not> length indices \<le> cur_row"
    and l: "Suc cur_row + length rows \<le> length indices" by simp_all
  then have dr: "drop cur_row indices = ?idx # drop (Suc cur_row) indices"
    by (simp add: Cons_nth_drop_Suc)
  note sh = slots_hold_Cons [OF Cons.prems(2)]
  have sh1: "slots_hold (key_hash ?ctx1) (expr_values_cache ?ctx1) rows"
    using sh(3) by simp
  have c1: "(expr_values_cache ?ctx1)\<lparr>cur := cur (expr_values_cache ?ctx1) + length rows\<rparr>
            = ?c\<lparr>cur := cur ?c + length (row # rows)\<rparr>"
    by (simp add: NextRow_def)
  show ?case
  proof (cases "key_hash ctx row")
    case None
    then have n: "IsRowNull ?c" using sh(1) by (simp add: IsRowNull_def)
    have kp: "keyed_pairs (key_hash ctx) (row # rows) (drop cur_row indices)
        = keyed_pairs (key_hash ctx) rows (drop (Suc cur_row) indices)"
      by (simp add: dr None)
    from Cons.prems(4) have room: "length (entries ht)
        + length (keyed_pairs (key_hash ?ctx1) rows (drop (Suc cur_row) indices)) \<le> max_entries ht"
      by (simp add: kp)
    from Cons.IH [OF Cons.prems(1) sh1 l room] i n show ?thesis
      unfolding c1 kp by simp
  next
    case (Some h)
    then have n: "\<not> IsRowNull ?c" using sh(1) by (simp add: IsRowNull_def)
    have hh: "CurExprValuesHash ?c = h" using sh(2) [OF Some] by (simp add: CurExprValuesHash_def)
    have kp: "keyed_pairs (key_hash ctx) (row # rows) (drop cur_row indices)
        = (h, ?idx) # keyed_pairs (key_hash ctx) rows (drop (Suc cur_row) indices)"
      by (simp add: dr Some)
    define ht1 where "ht1 = ht\<lparr>entries := entries ht @ [(h, ?idx)]\<rparr>"
    from Cons.prems(4) have lt: "length (entries ht) < max_entries ht"
      by (simp add: kp)
    then have ins: "Insert ht ctx ?idx row = (True, ht1)"
      by (simp add: Insert_def hh ht1_def)
    have h1: "hash_tbl (p\<lparr>hash_tbl := Some ht1\<rparr>) = Some ht1" by simp
    from Cons.prems(4) have room: "length (entries ht1)
        + length (keyed_pairs (key_hash ?ctx1) rows (drop (Suc cur_row) indices)) \<le> max_entries ht1"
      by (simp add: kp ht1_def)
    from Cons.IH [OF h1 sh1 l room] i n ins Cons.prems(1) show ?thesis
      unfolding c1 kp by (simp add: ht1_def)
  qed
qed

lemma read_phase_fails_at:
  "hash_tbl p = Some ht \<Longrightarrow>
   slots_hold (key_hash ctx) (expr_values_cache ctx) rows \<Longrightarrow>
   j < length rows \<Longrightarrow> cur_row + j < length indices \<Longrightarrow>
   key_hash ctx (rows ! j) \<noteq> None \<Longrightarrow>
   length (entries ht) + length (keyed_pairs (key_hash ctx) (take j rows) (drop cur_row indices))
     = max_entries ht \<Longrightarrow>
   read_phase indices rows cur_row (ctx, p)
     = Returns (False,
         ctx\<lparr>expr_values_cache := (expr_values_cache ctx)\<lparr>cur := cur (expr_values_cache ctx) + j\<rparr>\<rparr>,
         p\<lparr>hash_tbl := Some (ht\<lparr>entries := entries ht
                @ keyed_pairs (key_hash ctx) (take j rows) (drop cur_row indices)\<rparr>)\<rparr>)"
proof (induction rows arbitrary: j cur_row ctx p ht)
  case Nil
  then show ?case by simp
next
  case (Cons row rows)
  let ?c = "expr_values_cache ctx"
  let ?ctx1 = "ctx\<lparr>expr_values_cache := NextRow ?c\<rparr>"
  let ?idx = "indices ! cur_row"
  from Cons.prems(4) have i: "\<not> length indices \<le> cur_row" by simp
  then have dr: "drop cur_row indices = ?idx # drop (Suc cur_row) indices"
    by (simp add: Cons_nth_drop_Suc)
  note sh = slots_hold_Cons [OF Cons.prems(2)]
  have sh1: "slots_hold (key_hash ?ctx1) (expr_values_cache ?ctx1) rows"
    using sh(3) by simp
  show ?case
  proof (cases j)
    case 0
    with Cons.prems(5) obtain h where h: "key_hash ctx row = Some h" by auto
    then have n: "\<not> IsRowNull ?c" using sh(1) by (simp add: IsRowNull_def)
    from 0 Cons.prems(6) have "\<not> length (entries ht) < max_entries ht" by simp
    then have ins: "Insert ht ctx ?idx row = (False, ht)" by (simp add: Insert_def)
    from i n ins Cons.prems(1) 0 show ?thesis by simp
  next
    case (Suc j')
    have c1: "(expr_values_cache ?ctx1)\<lparr>cur := cur (expr_values_cache ?ctx1) + j'\<rparr>
            = ?c\<lparr>cur := cur ?c + j\<rparr>"
      by (simp add: NextRow_def Suc)
    from Suc Cons.prems(3) have j': "j' < length rows" by simp
    from Suc Cons.prems(4) have ci: "Suc cur_row + j' < length indices" by simp
    from Suc Cons.prems(5) have kj: "key_hash ?ctx1 (rows ! j') \<noteq> None" by simp
    show ?thesis
    proof (cases "key_hash ctx row")
      case None
      then have n: "IsRowNull ?c" using sh(1) by (simp add: IsRowNull_def)
      have kp: "keyed_pairs (key_hash ctx) (take j (row # rows)) (drop cur_row indices)
          = keyed_pairs (key_hash ctx) (take j' rows) (drop (Suc cur_row) indices)"
        by (simp add: dr None Suc)
      from Cons.prems(6) have room: "length (entries ht)
          + length (keyed_pairs (key_hash ?ctx1) (take j' rows) (drop (Suc cur_row) indices))
          = max_entries ht"
        by (simp add: kp)
      from Cons.IH [OF Cons.prems(1) sh1 j' ci kj room] i n show ?thesis
        unfolding c1 kp by simp
    next
      case (Some h)
      then have n: "\<not> IsRowNull ?c" using sh(1) by (simp add: IsRowNull_def)
      have hh: "CurExprValuesHash ?c = h" using sh(2) [OF Some] by (simp add: CurExprValuesHash_def)
      have kp: "keyed_pairs (key_hash ctx) (take j (row # rows)) (drop cur_row indices)
          = (h, ?idx) # keyed_pairs (key_hash ctx) (take j' rows) (drop (Suc cur_row) indices)"
        by (simp add: dr Some Suc)
      define ht1 where "ht1 = ht\<lparr>entries := entries ht @ [(h, ?idx)]\<rparr>"
      from Cons.prems(6) have lt: "length (entries ht) < max_entries ht"
        by (simp add: kp)
      then have ins: "Insert ht ctx ?idx row = (True, ht1)"
        by (simp add: Insert_def hh ht1_def)
      have h1: "hash_tbl (p\<lparr>hash_tbl := Some ht1\<rparr>) = Some ht1" by simp
      from Cons.prems(6) have room: "length (entries ht1)
          + length (keyed_pairs (key_hash ?ctx1) (take j' rows) (drop (Suc cur_row) indices))
          = max_entries ht1"
        by (simp add: kp ht1_def)
      from Cons.IH [OF h1 sh1 j' ci kj room] i n ins Cons.prems(1) show ?thesis
        unfolding c1 kp by (simp add: ht1_def)
    qed
  qed
qed


lemma write_phase_reset_slots_hold:
  assumes w: "write_phase mode p rows (ctx\<lparr>expr_values_cache := Reset (expr_values_cache ctx)\<rparr>) = Returns ctx1"
  shows "slots_hold (key_hash ctx) (ResetForRead (expr_values_cache ctx1)) rows"
  unfolding slots_hold_def
proof (intro allI impI)
  let ?ctx0 = "ctx\<lparr>expr_values_cache := Reset (expr_values_cache ctx)\<rparr>"
  let ?c2 = "ResetForRead (expr_values_cache ctx1)"
  fix j assume j: "j < length rows"
  then have ne: "rows \<noteq> []" by auto
  note we = write_phase_effect [OF w]
  note we_slots = we [THEN conjunct2, THEN conjunct2, THEN conjunct2, THEN conjunct2, THEN conjunct2,
      rule_format]
  from write_phase_bound [OF w ne] have "length rows \<le> length (slots (expr_values_cache ctx))"
    by (simp only: Reset_def capacity_def) simp
  with j have "j < length (slots (expr_values_cache ctx))"
    by (rule less_le_trans)
  then have f: "snd (slots (expr_values_cache ?ctx0) ! j) = False"
    by (simp add: Reset_def)
  from we_slots [OF j] f
  show "snd (slots ?c2 ! (cur ?c2 + j)) = (key_hash ctx (rows ! j) = None)
        \<and> (\<forall>h. key_hash ctx (rows ! j) = Some h \<longrightarrow> fst (slots ?c2 ! (cur ?c2 + j)) = h)"
    by (simp add: ResetForRead_def Reset_def)
qed

lemma insert_group_succeeds:
  assumes ht: "hash_tbl p = Some ht"
    and cap: "length (take C (drop g batch)) \<le> capacity (expr_values_cache ctx)"
    and idx: "g + length (take C (drop g batch)) \<le> length indices"
    and room: "length (entries ht)
        + length (keyed_pairs (key_hash ctx) (take C (drop g batch)) (drop g indices)) \<le> max_entries ht"
  shows "insert_group mode batch indices C g (ctx, p)
     = Returns (True,
         ctx\<lparr>expr_values_cache :=
           (ResetForRead (written (key_hash ctx) (take C (drop g batch)) (Reset (expr_values_cache ctx))))
             \<lparr>cur := length (take C (drop g batch))\<rparr>\<rparr>,
         p\<lparr>hash_tbl := Some (ht\<lparr>entries := entries ht
                @ keyed_pairs (key_hash ctx) (take C (drop g batch)) (drop g indices)\<rparr>)\<rparr>)"
proof -
  let ?rows = "take C (drop g batch)"
  let ?ctx0 = "ctx\<lparr>expr_values_cache := Reset (expr_values_cache ctx)\<rparr>"
  have "cur (expr_values_cache ?ctx0) + length ?rows \<le> capacity (expr_values_cache ?ctx0)"
    using cap by (simp add: Reset_def capacity_def)
  moreover have "mode \<noteq> NONE \<longrightarrow> hash_tbl p \<noteq> None" using ht by simp
  ultimately obtain ctx1 where w: "write_phase mode p ?rows ?ctx0 = Returns ctx1"
    using write_phase_returns [of ?ctx0 ?rows mode p] by blast
  have c1: "ctx1 = ctx\<lparr>expr_values_cache := written (key_hash ctx) ?rows (Reset (expr_values_cache ctx))\<rparr>"
    using write_phase_written [OF w] by simp
  let ?ctx2 = "ctx1\<lparr>expr_values_cache := ResetForRead (expr_values_cache ctx1)\<rparr>"
  have sh: "slots_hold (key_hash ?ctx2) (expr_values_cache ?ctx2) ?rows"
    using write_phase_reset_slots_hold [OF w] by (simp add: c1)
  have room2: "length (entries ht)
        + length (keyed_pairs (key_hash ?ctx2) ?rows (drop g indices)) \<le> max_entries ht"
    using room by (simp add: c1)
  from read_phase_succeeds [OF ht sh idx room2] w show ?thesis
    by (simp add: insert_group_def rows_limit_def c1 ResetForRead_def)
qed

lemma insert_group_fails_at:
  assumes ht: "hash_tbl p = Some ht"
    and cap: "length (take C (drop g batch)) \<le> capacity (expr_values_cache ctx)"
    and j: "j < length (take C (drop g batch))"
    and idx: "g + j < length indices"
    and key: "key_hash ctx (take C (drop g batch) ! j) \<noteq> None"
    and room: "length (entries ht)
        + length (keyed_pairs (key_hash ctx) (take j (take C (drop g batch))) (drop g indices))
        = max_entries ht"
  shows "insert_group mode batch indices C g (ctx, p)
     = Returns (False,
         ctx\<lparr>expr_values_cache :=
           (ResetForRead (written (key_hash ctx) (take C (drop g batch)) (Reset (expr_values_cache ctx))))
             \<lparr>cur := j\<rparr>\<rparr>,
         p\<lparr>hash_tbl := Some (ht\<lparr>entries := entries ht
                @ keyed_pairs (key_hash ctx) (take j (take C (drop g batch))) (drop g indices)\<rparr>)\<rparr>)"
proof -
  let ?rows = "take C (drop g batch)"
  let ?ctx0 = "ctx\<lparr>expr_values_cache := Reset (expr_values_cache ctx)\<rparr>"
  have "cur (expr_values_cache ?ctx0) + length ?rows \<le> capacity (expr_values_cache ?ctx0)"
    using cap by (simp add: Reset_def capacity_def)
  moreover have "mode \<noteq> NONE \<longrightarrow> hash_tbl p \<noteq> None" using ht by simp
  ultimately obtain ctx1 where w: "write_phase mode p ?rows ?ctx0 = Returns ctx1"
    using write_phase_returns [of ?ctx0 ?rows mode p] by blast
  have c1: "ctx1 = ctx\<lparr>expr_values_cache := written (key_hash ctx) ?rows (Reset (expr_values_cache ctx))\<rparr>"
    using write_phase_written [OF w] by simp
  let ?ctx2 = "ctx1\<lparr>expr_values_cache := ResetForRead (expr_values_cache ctx1)\<rparr>"
  have sh: "slots_hold (key_hash ?ctx2) (expr_values_cache ?ctx2) ?rows"
    using write_phase_reset_slots_hold [OF w] by (simp add: c1)
  have key2: "key_hash ?ctx2 (?rows ! j) \<noteq> None"
    using key by (simp add: c1)
  have room2: "length (entries ht)
        + length (keyed_pairs (key_hash ?ctx2) (take j ?rows) (drop g indices)) = max_entries ht"
    using room by (simp add: c1)
  from read_phase_fails_at [OF ht sh j idx key2 room2] w show ?thesis
    by (simp add: insert_group_def rows_limit_def c1 ResetForRead_def)
qed

lemma insert_groups_fails_at:
  assumes C: "0 < C"
    and idx: "length batch \<le> length indices"
    and ovf: "length batch + C \<le> 2 ^ 31"
    and k: "k < length batch"
    and key: "key (batch ! k) \<noteq> None"
  shows "key_hash ctx = key \<Longrightarrow> C \<le> capacity (expr_values_cache ctx) \<Longrightarrow> hash_tbl p = Some ht \<Longrightarrow>
         g \<le> k \<Longrightarrow>
         length (entries ht)
           + length (keyed_pairs key (take (k - g) (drop g batch)) (drop g indices)) = max_entries ht \<Longrightarrow>
         insert_groups mode batch indices C g (ctx, p)
           = Some (Returns (False,
               ctx\<lparr>expr_values_cache := cache_at_failure key C (drop g batch) (k - g) (expr_values_cache ctx)\<rparr>,
               p\<lparr>hash_tbl := Some (ht\<lparr>entries := entries ht
                  @ keyed_pairs key (take (k - g) (drop g batch)) (drop g indices)\<rparr>)\<rparr>))"
proof (induction "k - g" arbitrary: g ctx p ht rule: less_induct)
  case less
  let ?rows = "take C (drop g batch)"
  let ?c = "expr_values_cache ctx"
  let ?j = "k - g"
  from less.prems(4) k have g: "g < length batch" by simp
  have kh: "key_hash ctx = key" by (rule less.prems(1))
  have cap: "length ?rows \<le> capacity ?c"
    using less.prems(2) by simp
  show ?case
  proof (cases "?j < C")
    case True
    have j: "?j < length ?rows" using True k less.prems(4) by simp
    have ix: "g + ?j < length indices" using k idx less.prems(4) by simp
    have ky: "key_hash ctx (?rows ! ?j) \<noteq> None"
      using key True k less.prems(4) by (simp add: kh)
    have tk: "take ?j ?rows = take ?j (drop g batch)"
      using True by (simp add: min_def)
    have room: "length (entries ht)
        + length (keyed_pairs (key_hash ctx) (take ?j ?rows) (drop g indices)) = max_entries ht"
      using less.prems(5) by (simp only: tk kh)
    from insert_group_fails_at [OF less.prems(3) cap j ix ky room, of mode]
    have grp: "insert_group mode batch indices C g (ctx, p)
       = Returns (False,
           ctx\<lparr>expr_values_cache := (ResetForRead (written key ?rows (Reset ?c)))\<lparr>cur := ?j\<rparr>\<rparr>,
           p\<lparr>hash_tbl := Some (ht\<lparr>entries := entries ht
                  @ keyed_pairs key (take ?j (drop g batch)) (drop g indices)\<rparr>)\<rparr>)"
      by (simp only: tk kh)
    have cf: "cache_at_failure key C (drop g batch) ?j ?c
        = (ResetForRead (written key ?rows (Reset ?c)))\<lparr>cur := ?j\<rparr>"
      using True by (subst cache_at_failure.simps) simp
    show ?thesis
      using g by (subst insert_groups.simps) (simp add: grp cf)
  next
    case False
    then have Cj: "C \<le> ?j" by simp
    with k less.prems(4) have full: "length ?rows = C" by simp
    let ?pg = "keyed_pairs key ?rows (drop g indices)"
    let ?rest = "keyed_pairs key (take (k - (g + C)) (drop (g + C) batch)) (drop (g + C) indices)"
    have split: "keyed_pairs key (take ?j (drop g batch)) (drop g indices) = ?pg @ ?rest"
    proof -
      have "take C (take ?j (drop g batch)) = ?rows"
        using Cj by (simp add: min_def)
      moreover have "drop C (take ?j (drop g batch)) = take (k - (g + C)) (drop (g + C) batch)"
        by (simp add: drop_take add.commute)
      moreover have "drop C (drop g indices) = drop (g + C) indices"
        by (simp add: add.commute)
      ultimately show ?thesis
        using keyed_pairs_take_drop [of key "take ?j (drop g batch)" "drop g indices" C]
        by simp
    qed
    have ix: "g + length ?rows \<le> length indices"
      using g idx by simp
    have room: "length (entries ht) + length (keyed_pairs (key_hash ctx) ?rows (drop g indices))
        \<le> max_entries ht"
      using less.prems(5) by (simp add: split kh)
    define ctx1 where "ctx1 = ctx\<lparr>expr_values_cache :=
        (ResetForRead (written key ?rows (Reset ?c)))\<lparr>cur := C\<rparr>\<rparr>"
    define ht1 where "ht1 = ht\<lparr>entries := entries ht @ ?pg\<rparr>"
    have grp: "insert_group mode batch indices C g (ctx, p)
       = Returns (True, ctx1, p\<lparr>hash_tbl := Some ht1\<rparr>)"
      unfolding ctx1_def ht1_def
      using insert_group_succeeds [OF less.prems(3) cap ix room, of mode]
      by (simp only: kh full)
    have m: "k - (g + C) < k - g" using Cj C by simp
    have k1: "key_hash ctx1 = key" by (simp add: ctx1_def kh)
    have cap1: "C \<le> capacity (expr_values_cache ctx1)"
      using less.prems(2)
      by (simp add: ctx1_def capacity_def [of "_\<lparr>cur := C\<rparr>"] ResetForRead_def
          written_capacity [unfolded capacity_def] Reset_def capacity_def)
    have h1: "hash_tbl (p\<lparr>hash_tbl := Some ht1\<rparr>) = Some ht1" by simp
    have g1: "g + C \<le> k" using Cj less.prems(4) by simp
    have room1: "length (entries ht1) + length ?rest = max_entries ht1"
      using less.prems(5) by (simp add: split ht1_def)
    note ih = less.hyps [OF m k1 cap1 h1 g1 room1]
    have no: "\<not> (2::nat) ^ 31 \<le> g + C"
      using g ovf by simp
    have cf: "cache_at_failure key C (drop g batch) ?j ?c
        = cache_at_failure key C (drop (g + C) batch) (k - (g + C)) (expr_values_cache ctx1)"
      using False C
      by (subst cache_at_failure.simps) (simp add: ctx1_def add.commute)
    have "insert_groups mode batch indices C g (ctx, p)
        = insert_groups mode batch indices C (g + C) (ctx1, p\<lparr>hash_tbl := Some ht1\<rparr>)"
      using g no by (subst insert_groups.simps) (simp add: grp)
    also note ih
    also have "ctx1\<lparr>expr_values_cache :=
          cache_at_failure key C (drop (g + C) batch) (k - (g + C)) (expr_values_cache ctx1)\<rparr>
        = ctx\<lparr>expr_values_cache := cache_at_failure key C (drop g batch) ?j ?c\<rparr>"
      unfolding cf by (simp add: ctx1_def)
    also have "p\<lparr>hash_tbl := Some ht1\<rparr>\<lparr>hash_tbl := Some (ht1\<lparr>entries := entries ht1 @ ?rest\<rparr>)\<rparr>
        = p\<lparr>hash_tbl := Some (ht\<lparr>entries := entries ht
             @ keyed_pairs key (take ?j (drop g batch)) (drop g indices)\<rparr>)\<rparr>"
      unfolding split by (simp add: ht1_def)
    finally show ?thesis .
  qed
qed

lemma cache_at_failure_cur:
  "0 < C \<Longrightarrow> cur (cache_at_failure key C rows j c) = j mod C"
proof (induction key C rows j c rule: cache_at_failure.induct)
  case (1 key C rows j c)
  show ?case
  proof (cases "j < C")
    case True
    then show ?thesis by (subst cache_at_failure.simps) simp
  next
    case False
    with "1.prems" have "cur (cache_at_failure key C (drop C rows) (j - C)
             ((ResetForRead (written key (take C rows) (Reset c)))\<lparr>cur := C\<rparr>)) = (j - C) mod C"
      using "1.IH" by simp
    with False "1.prems" show ?thesis
      by (subst cache_at_failure.simps) (simp add: le_mod_geq)
  qed
qed


lemma cache_at_failure_take:
  "0 < C \<Longrightarrow> (j div C + 1) * C \<le> n \<Longrightarrow>
   cache_at_failure key C (take n rows) j c = cache_at_failure key C rows j c"
proof (induction key C rows j c arbitrary: n rule: cache_at_failure.induct)
  case (1 key C rows j c)
  from "1.prems" have Cn: "C \<le> n"
    by (metis add.commute le_add1 le_trans mult.commute mult_le_mono2 nat_mult_1_right)
  then have tk: "min C n = C" by simp
  show ?case
  proof (cases "j < C")
    case True
    then show ?thesis
      by (subst (1 2) cache_at_failure.simps) (simp add: tk)
  next
    case False
    then have "j div C = (j - C) div C + 1"
      using "1.prems"(1) by (simp add: le_div_geq)
    with "1.prems"(2) have "((j - C) div C + 1) * C \<le> n - C"
      by simp
    with False "1.prems"(1)
    have "cache_at_failure key C (take (n - C) (drop C rows)) (j - C)
             ((ResetForRead (written key (take C rows) (Reset c)))\<lparr>cur := C\<rparr>)
        = cache_at_failure key C (drop C rows) (j - C)
             ((ResetForRead (written key (take C rows) (Reset c)))\<lparr>cur := C\<rparr>)"
      using "1.IH" by simp
    with False "1.prems"(1) show ?thesis
      by (subst (1 2) cache_at_failure.simps) (simp add: tk drop_take)
  qed
qed

text \<open>
  Claim C4. Take a batch that the index vector covers, a cache of capacity at least
  one, a table with room for the rows with a key before position \<open>k\<close>, and let
  \<^verbatim>\<open>Insert\<close> fail on the row at \<open>k\<close>, whose key is not NULL, once these rows are
  in the table. Then \<^verbatim>\<open>InsertBatch\<close> returns false at once: the context it returns
  is the one of the moment of the failed \<^verbatim>\<open>Insert\<close>, with the group of row \<open>k\<close>
  written, the read cursor on the slot of row \<open>k\<close> (\<open>k mod C\<close>), and no row of a
  later group evaluated; and the table holds what it held before followed by the
  pairs of the rows with a key before \<open>k\<close>, each with its RowIdx, so that the row
  at \<open>k\<close> and the rows after it are not inserted.
\<close>

theorem InsertBatch_stops_at_failed_insert:
  assumes "hash_tbl p = Some ht"
    and "0 < capacity (expr_values_cache ht_ctx)"
    and "length batch \<le> length indices"
    and "length batch + capacity (expr_values_cache ht_ctx) \<le> 2 ^ 31"
    and "k < length batch"
    and "key_hash ht_ctx (batch ! k) \<noteq> None"
    and "length (entries ht) + length (keyed_pairs (key_hash ht_ctx) (take k batch) indices)
           \<le> max_entries ht"
    and "\<not> fst (Insert (ht\<lparr>entries := entries ht @ keyed_pairs (key_hash ht_ctx) (take k batch) indices\<rparr>)
                  ht_ctx (indices ! k) (batch ! k))"
  shows "InsertBatch p prefetch_mode ht_ctx batch indices
           = Some (Returns (False,
               ht_ctx\<lparr>expr_values_cache :=
                 cache_at_failure (key_hash ht_ctx) (capacity (expr_values_cache ht_ctx)) batch k
                   (expr_values_cache ht_ctx)\<rparr>,
               p\<lparr>hash_tbl := Some (ht\<lparr>entries := entries ht
                  @ keyed_pairs (key_hash ht_ctx) (take k batch) indices\<rparr>)\<rparr>))
         \<and> cur (cache_at_failure (key_hash ht_ctx) (capacity (expr_values_cache ht_ctx)) batch k
                  (expr_values_cache ht_ctx))
             = k mod capacity (expr_values_cache ht_ctx)
         \<and> cache_at_failure (key_hash ht_ctx) (capacity (expr_values_cache ht_ctx))
               (take ((k div capacity (expr_values_cache ht_ctx) + 1) * capacity (expr_values_cache ht_ctx))
                  batch) k (expr_values_cache ht_ctx)
             = cache_at_failure (key_hash ht_ctx) (capacity (expr_values_cache ht_ctx)) batch k
                 (expr_values_cache ht_ctx)
         \<and> (\<exists>ctx' p' ht'.
               InsertBatch p prefetch_mode ht_ctx batch indices = Some (Returns (False, ctx', p'))
               \<and> hash_tbl p' = Some ht'
               \<and> entries ht' = entries ht @ keyed_pairs (key_hash ht_ctx) (take k batch) indices)"
proof -
  let ?C = "capacity (expr_values_cache ht_ctx)"
  let ?key = "key_hash ht_ctx"
  let ?before = "keyed_pairs ?key (take k batch) indices"
  let ?ctx' = "ht_ctx\<lparr>expr_values_cache := cache_at_failure ?key ?C batch k (expr_values_cache ht_ctx)\<rparr>"
  let ?p' = "p\<lparr>hash_tbl := Some (ht\<lparr>entries := entries ht @ ?before\<rparr>)\<rparr>"
  from assms(8) have "\<not> length (entries ht) + length ?before < max_entries ht"
    by (auto simp: Insert_def split: if_splits)
  with assms(7) have full: "length (entries ht)
      + length (keyed_pairs ?key (take (k - 0) (drop 0 batch)) (drop 0 indices)) = max_entries ht"
    by simp
  from insert_groups_fails_at [OF assms(2,3,4,5,6) refl order_refl assms(1) le0 full, of prefetch_mode]
  have 1: "InsertBatch p prefetch_mode ht_ctx batch indices = Some (Returns (False, ?ctx', ?p'))"
    by (simp add: InsertBatch_def)
  have 2: "cur (cache_at_failure ?key ?C batch k (expr_values_cache ht_ctx)) = k mod ?C"
    using assms(2) by (rule cache_at_failure_cur)
  have 3: "cache_at_failure ?key ?C (take ((k div ?C + 1) * ?C) batch) k (expr_values_cache ht_ctx)
      = cache_at_failure ?key ?C batch k (expr_values_cache ht_ctx)"
    using assms(2) by (rule cache_at_failure_take) simp
  have "hash_tbl ?p' = Some (ht\<lparr>entries := entries ht @ ?before\<rparr>)
      \<and> entries (ht\<lparr>entries := entries ht @ ?before\<rparr>) = entries ht @ ?before"
    by simp
  with 1 have 4: "\<exists>ctx' p' ht'.
               InsertBatch p prefetch_mode ht_ctx batch indices = Some (Returns (False, ctx', p'))
               \<and> hash_tbl p' = Some ht'
               \<and> entries ht' = entries ht @ ?before"
    by blast
  from 1 2 3 4 show ?thesis by (intro conjI)
qed

theorem InsertBatch_stops_at_failed_insert_witness:
  "InsertBatch (demo_table 5) GroupPrefetch (demo_ctx 0) demo_batch demo_indices
     = Some (Returns (False,
         \<lparr>key_hash = demo_key, level = 0,
            expr_values_cache = \<lparr>slots = [(0x10000005, False), (0x10000000, False),
                                           (0x90000000, True), (0x90000000, False)],
                                  cur = 3, hash_end = 4\<rparr>\<rparr>,
         demo_table_after 5 (take 5 demo_pairs)))
   \<and> keyed_pairs (key_hash (demo_ctx 0)) (take 7 demo_batch) demo_indices = take 5 demo_pairs
   \<and> demo_batch ! 7 = 2 \<and> capacity (expr_values_cache (demo_ctx 0)) = 4"
proof -
  let ?ht = "\<lparr>entries = [], max_entries = 5\<rparr>"
  have kp: "keyed_pairs (key_hash (demo_ctx 0)) (take 7 demo_batch) demo_indices = take 5 demo_pairs"
    by (simp add: demo_ctx_def demo_key_def demo_batch_def demo_indices_def demo_pairs_def)
  have 1: "hash_tbl (demo_table 5) = Some ?ht" by (simp add: demo_table_def)
  have 2: "0 < capacity (expr_values_cache (demo_ctx 0))"
    by (simp add: demo_ctx_def demo_cache_def capacity_def)
  have 3: "length demo_batch \<le> length demo_indices"
    by (simp add: demo_batch_def demo_indices_def)
  have 4: "length demo_batch + capacity (expr_values_cache (demo_ctx 0)) \<le> 2 ^ 31"
    by (simp add: demo_batch_def demo_ctx_def demo_cache_def capacity_def)
  have 5: "7 < length demo_batch" by (simp add: demo_batch_def)
  have 6: "key_hash (demo_ctx 0) (demo_batch ! 7) \<noteq> None"
    by (simp add: demo_ctx_def demo_key_def demo_batch_def)
  have 7: "length (entries ?ht) + length (keyed_pairs (key_hash (demo_ctx 0)) (take 7 demo_batch) demo_indices)
             \<le> max_entries ?ht"
    by (simp add: kp demo_pairs_def)
  have 8: "\<not> fst (Insert (?ht\<lparr>entries := entries ?ht
                 @ keyed_pairs (key_hash (demo_ctx 0)) (take 7 demo_batch) demo_indices\<rparr>)
               (demo_ctx 0) (demo_indices ! 7) (demo_batch ! 7))"
    by (simp add: kp demo_pairs_def Insert_def)
  have c: "(demo_ctx 0)\<lparr>expr_values_cache :=
              cache_at_failure (key_hash (demo_ctx 0)) (capacity (expr_values_cache (demo_ctx 0)))
                demo_batch 7 (expr_values_cache (demo_ctx 0))\<rparr>
        = \<lparr>key_hash = demo_key, level = 0,
            expr_values_cache = \<lparr>slots = [(0x10000005, False), (0x10000000, False),
                                           (0x90000000, True), (0x90000000, False)],
                                  cur = 3, hash_end = 4\<rparr>\<rparr>"
    by (simp add: cache_at_failure.simps demo_ctx_def demo_cache_def demo_key_def demo_batch_def
        capacity_def Reset_def ResetForRead_def NextRow_def SetRowNull_def SetCurExprValuesHash_def)
  have t: "(demo_table 5)\<lparr>hash_tbl := Some (?ht\<lparr>entries := entries ?ht
              @ keyed_pairs (key_hash (demo_ctx 0)) (take 7 demo_batch) demo_indices\<rparr>)\<rparr>
        = demo_table_after 5 (take 5 demo_pairs)"
    by (simp add: kp demo_table_def demo_table_after_def)
  have d: "demo_batch ! 7 = 2 \<and> capacity (expr_values_cache (demo_ctx 0)) = 4"
    by (simp add: demo_batch_def demo_ctx_def demo_cache_def capacity_def)
  from InsertBatch_stops_at_failed_insert [OF 1 2 3 4 5 6 7 8, of GroupPrefetch]
  have "InsertBatch (demo_table 5) GroupPrefetch (demo_ctx 0) demo_batch demo_indices
     = Some (Returns (False,
         (demo_ctx 0)\<lparr>expr_values_cache :=
              cache_at_failure (key_hash (demo_ctx 0)) (capacity (expr_values_cache (demo_ctx 0)))
                demo_batch 7 (expr_values_cache (demo_ctx 0))\<rparr>,
         (demo_table 5)\<lparr>hash_tbl := Some (?ht\<lparr>entries := entries ?ht
              @ keyed_pairs (key_hash (demo_ctx 0)) (take 7 demo_batch) demo_indices\<rparr>)\<rparr>))"
    by (rule conjunct1)
  then have "InsertBatch (demo_table 5) GroupPrefetch (demo_ctx 0) demo_batch demo_indices
     = Some (Returns (False,
         \<lparr>key_hash = demo_key, level = 0,
            expr_values_cache = \<lparr>slots = [(0x10000005, False), (0x10000000, False),
                                           (0x90000000, True), (0x90000000, False)],
                                  cur = 3, hash_end = 4\<rparr>\<rparr>,
         demo_table_after 5 (take 5 demo_pairs)))"
    unfolding c t .
  with kp d show ?thesis by (intro conjI) simp_all
qed

end
